theory Spec2Isabelle
  imports Main "HOL-Library.Word" "HOL-Library.Signed_Division"
begin

unbundle bit_operations_syntax

section \<open>FileToVideo: constants and data\<close>

text \<open>
  The Go constants of the frame geometry. Go's \<open>int\<close> is taken as the 64-bit integer of
  the platforms the program targets; indices and lengths, which never go negative, are
  \<open>nat\<close>, the signed 64-bit length read from the header is an \<open>int\<close> obtained with
  \<open>sint\<close> from a \<open>64 word\<close>.
\<close>

type_synonym byte = "8 word"

definition dotSize :: nat where
  "dotSize = 8"

definition frameWidth :: nat where
  "frameWidth = 1920"

definition frameHeight :: nat where
  "frameHeight = 1080"

definition rawBytesPerFrame :: nat where
  "rawBytesPerFrame = frameWidth * frameHeight * 3"

definition processedBytesPerFrame :: nat where
  "processedBytesPerFrame = frameWidth div dotSize * frameHeight div dotSize * 3 div 8"

record frameData =
  frameID :: nat
  frameValue :: "byte list"

datatype error =
  IndexOutOfRange
  | SliceBoundsOutOfRange
  | TruncateError

section \<open>Ordered insertion into the key list\<close>

text \<open>
  Go's \<open>sort.Search(n, f)\<close>: binary search for the smallest index in \<open>[0, n)\<close> at which
  \<open>f\<close> holds, \<open>n\<close> if there is none. The loop is
  \<^verbatim>\<open>i, j := 0, n; for i < j { h := int(uint(i+j) >> 1); if !f(h) { i = h + 1 } else { j = h } }; return i\<close>.
\<close>

function search_loop :: "nat \<Rightarrow> nat \<Rightarrow> (nat \<Rightarrow> bool) \<Rightarrow> nat" where
  "search_loop i j f =
     (if i < j then
        (let h = (i + j) div 2 in
         if \<not> f h then search_loop (h + 1) j f else search_loop i h f)
      else i)"
  by pat_completeness auto
termination
  by (relation "measure (\<lambda>(i, j, f). j - i)") auto

declare search_loop.simps [simp del]

definition sort_Search :: "nat \<Rightarrow> (nat \<Rightarrow> bool) \<Rightarrow> nat" where
  "sort_Search n f = search_loop 0 n f"

text \<open>
  The three statements that insert \<open>frameID\<close> at \<open>index\<close>:
  \<^verbatim>\<open>keys = append(keys, 0); copy(keys[index+1:], keys[index:]); keys[index] = frameID\<close>.
  \<open>copy\<close> moves \<open>min (len dst) (len src)\<close> elements, as \<open>memmove\<close> does.
\<close>

definition copy_shift :: "nat list \<Rightarrow> nat \<Rightarrow> nat list" where
  "copy_shift ks index =
     take (index + 1) ks @ take (length ks - (index + 1)) (drop index ks)"

definition insert_key :: "nat list \<Rightarrow> nat \<Rightarrow> nat list" where
  "insert_key keys fid =
     (let index = sort_Search (length keys) (\<lambda>i. keys ! i \<ge> fid);
          keys1 = keys @ [0];
          keys2 = copy_shift keys1 index
      in keys2[index := fid])"

section \<open>The length header\<close>

text \<open>
  Go's \<open>binary.BigEndian.PutUint64\<close> and \<open>binary.BigEndian.Uint64\<close>: byte 0 is the most
  significant one.
\<close>

definition PutUint64 :: "64 word \<Rightarrow> byte list" where
  "PutUint64 v =
     [ucast (drop_bit 56 v), ucast (drop_bit 48 v), ucast (drop_bit 40 v),
      ucast (drop_bit 32 v), ucast (drop_bit 24 v), ucast (drop_bit 16 v),
      ucast (drop_bit 8 v), ucast v]"

definition Uint64 :: "byte list \<Rightarrow> 64 word" where
  "Uint64 b =
     ucast (b ! 7) OR push_bit 8 (ucast (b ! 6)) OR push_bit 16 (ucast (b ! 5)) OR
     push_bit 24 (ucast (b ! 4)) OR push_bit 32 (ucast (b ! 3)) OR
     push_bit 40 (ucast (b ! 2)) OR push_bit 48 (ucast (b ! 1)) OR
     push_bit 56 (ucast (b ! 0))"

section \<open>The reorder buffer\<close>

text \<open>
  The state the Ordered Emitter of encode and the Ordered Writer of decode share: the Go
  map \<open>buffer\<close>, the sorted index list \<open>keys\<close>, its length \<open>keysLen\<close> and the cursor
  \<open>wantedID\<close>. Reading a missing key of a Go map gives the empty slice.
\<close>

record reorder_state =
  buffer :: "nat \<rightharpoonup> byte list"
  keys :: "nat list"
  keysLen :: nat
  wantedID :: nat

definition map_get :: "(nat \<rightharpoonup> byte list) \<Rightarrow> nat \<Rightarrow> byte list" where
  "map_get m k = (case m k of None \<Rightarrow> [] | Some v \<Rightarrow> v)"

text \<open>
  The buffering branch, written three times in the source (once in encode, twice in
  decode): store the frame in the map and insert its index into \<open>keys\<close>.
\<close>

definition buffer_insert :: "'a reorder_state_scheme \<Rightarrow> frameData \<Rightarrow> 'a reorder_state_scheme" where
  "buffer_insert st frame =
     st\<lparr>buffer := (buffer st)(frameID frame \<mapsto> frameValue frame),
        keys := insert_key (keys st) (frameID frame),
        keysLen := keysLen st + 1\<rparr>"

section \<open>The Ordered Emitter of encode\<close>

text \<open>
  The reorder loop of \<open>ffmpegInstance\<close>. \<open>stdin\<close> is the byte stream written to the codec
  process so far.
\<close>

record emitter_state = reorder_state +
  stdin :: "byte list"

definition emitter_init :: emitter_state where
  "emitter_init = \<lparr>buffer = Map.empty, keys = [], keysLen = 0, wantedID = 0, stdin = []\<rparr>"

text \<open>The inner loop \<^verbatim>\<open>for keys[0] == wantedID { ... if keysLen == 0 { break } }\<close>.\<close>

function emitter_drain :: "emitter_state \<Rightarrow> error + emitter_state" where
  "emitter_drain st =
     (case keys st of
        [] \<Rightarrow> Inl IndexOutOfRange
      | k # ks \<Rightarrow>
          if k = wantedID st then
            (let st1 = st\<lparr>stdin := stdin st @ map_get (buffer st) (wantedID st),
                          buffer := (buffer st)(wantedID st := None),
                          keys := ks,
                          keysLen := keysLen st - 1,
                          wantedID := wantedID st + 1\<rparr>
             in if keysLen st1 = 0 then Inr st1 else emitter_drain st1)
          else Inr st)"
  by pat_completeness auto
termination
  by (relation "measure (\<lambda>st. length (keys st))") auto

declare emitter_drain.simps [simp del]

definition emitter_step :: "emitter_state \<Rightarrow> frameData \<Rightarrow> error + emitter_state" where
  "emitter_step st frame =
     (if frameID frame = wantedID st then
        (let st1 = st\<lparr>stdin := stdin st @ frameValue frame, wantedID := wantedID st + 1\<rparr>
         in if keysLen st1 = 0 then Inr st1 else emitter_drain st1)
      else Inr (buffer_insert st frame))"

fun emitter_loop :: "emitter_state \<Rightarrow> frameData list \<Rightarrow> error + emitter_state" where
  "emitter_loop st [] = Inr st"
| "emitter_loop st (frame # rest) =
     (case emitter_step st frame of Inl e \<Rightarrow> Inl e | Inr st1 \<Rightarrow> emitter_loop st1 rest)"

definition ffmpegInstance :: "frameData list \<Rightarrow> error + byte list" where
  "ffmpegInstance framesChanIn =
     (case emitter_loop emitter_init framesChanIn of
        Inl e \<Rightarrow> Inl e
      | Inr st \<Rightarrow> Inr (stdin st))"

section \<open>The Ordered Writer of decode\<close>

text \<open>
  The destination file is its byte sequence. \<open>os.Create\<close> gives the empty file,
  \<open>file.Truncate n\<close> cuts or zero-extends it to \<open>n\<close> bytes and fails on a negative size,
  \<open>file.WriteAt b off\<close> overwrites from offset \<open>off\<close>, zero-filling a gap past the end; a
  write of no bytes leaves the file as it is. The source drops the results of \<open>WriteAt\<close>.
\<close>

definition truncate_file :: "byte list \<Rightarrow> int \<Rightarrow> error + byte list" where
  "truncate_file f n =
     (if n < 0 then Inl TruncateError
      else Inr (take (nat n) f @ replicate (nat n - length f) 0))"

definition write_at :: "byte list \<Rightarrow> byte list \<Rightarrow> nat \<Rightarrow> byte list" where
  "write_at f b off =
     (if b = [] then f
      else take off f @ replicate (off - length f) 0 @ b @ drop (off + length b) f)"

text \<open>
  \<open>lengthInt\<close> is kept as the 64-bit word read from the header and compared as the
  signed \<open>int64\<close> it is converted to; Go's \<open>%\<close> truncates towards zero (\<open>smod\<close>).
  \<open>math.Ceil(float64(a)/float64(b))\<close> is modelled by the exact ceiling of the quotient,
  with which the floating-point value agrees for every length a file in memory can have.
\<close>

record writer_state = reorder_state +
  file_bytes :: "byte list"
  lastFrameOffset :: int
  lengthInt :: "64 word"
  nextWriteByte :: nat

definition writer_init :: writer_state where
  "writer_init =
     \<lparr>buffer = Map.empty, keys = [], keysLen = 0, wantedID = 1,
      file_bytes = [], lastFrameOffset = 0, lengthInt = 0,
      nextWriteByte = processedBytesPerFrame - 8\<rparr>"

definition ceil_div :: "int \<Rightarrow> int \<Rightarrow> int" where
  "ceil_div a b = - ((- a) div b)"

text \<open>The body of the first loop for frame 0: read the header, truncate, write.\<close>

definition writer_frame0 :: "writer_state \<Rightarrow> byte list \<Rightarrow> error + writer_state" where
  "writer_frame0 st fv =
     (if length fv < 8 then Inl SliceBoundsOutOfRange
      else
        (let lengthBytes = take 8 fv;
             len = Uint64 lengthBytes;
             lfo = sint (len - 12142) smod 12150
         in case truncate_file (file_bytes st) (sint len) of
              Inl e \<Rightarrow> Inl e
            | Inr f1 \<Rightarrow>
                if sint len < int processedBytesPerFrame - 8 then
                  (if sint len < 8 \<or> int (length fv) < sint len then Inl SliceBoundsOutOfRange
                   else Inr (st\<lparr>file_bytes := write_at f1 (take (nat (sint len) - 8) (drop 8 fv)) 0,
                                 lastFrameOffset := lfo, lengthInt := len\<rparr>))
                else Inr (st\<lparr>file_bytes := write_at f1 (drop 8 fv) 0,
                              lastFrameOffset := lfo, lengthInt := len\<rparr>)))"

text \<open>
  The first loop: frames other than frame 0 are buffered; frame 0 ends the loop. The
  frames not yet received are returned with the state, for the second loop.
\<close>

fun writer_first :: "writer_state \<Rightarrow> frameData list \<Rightarrow> error + writer_state \<times> frameData list" where
  "writer_first st [] = Inr (st, [])"
| "writer_first st (frame # rest) =
     (if frameID frame \<noteq> 0 then writer_first (buffer_insert st frame) rest
      else (case writer_frame0 st (frameValue frame) of
              Inl e \<Rightarrow> Inl e
            | Inr st1 \<Rightarrow> Inr (st1, rest)))"

function writer_drain :: "writer_state \<Rightarrow> error + writer_state" where
  "writer_drain st =
     (case keys st of
        [] \<Rightarrow> Inl IndexOutOfRange
      | k # ks \<Rightarrow>
          if k = wantedID st then
            (let st1 = st\<lparr>file_bytes := write_at (file_bytes st) (map_get (buffer st) (wantedID st)) (nextWriteByte st),
                          buffer := (buffer st)(wantedID st := None),
                          keys := ks,
                          keysLen := keysLen st - 1,
                          wantedID := wantedID st + 1,
                          nextWriteByte := nextWriteByte st + processedBytesPerFrame\<rparr>
             in if keysLen st1 = 0 then Inr st1 else writer_drain st1)
          else Inr st)"
  by pat_completeness auto
termination
  by (relation "measure (\<lambda>st. length (keys st))") auto

declare writer_drain.simps [simp del]

definition last_frame_cut :: "writer_state \<Rightarrow> frameData \<Rightarrow> error + byte list" where
  "last_frame_cut st frame =
     (if int (frameID frame) =
           ceil_div (sint (lengthInt st + 8)) (int processedBytesPerFrame) - 1 then
        (if lastFrameOffset st < 0 \<or> int (length (frameValue frame)) < lastFrameOffset st
         then Inl SliceBoundsOutOfRange
         else Inr (take (nat (lastFrameOffset st)) (frameValue frame)))
      else Inr (frameValue frame))"

definition writer_step :: "writer_state \<Rightarrow> frameData \<Rightarrow> error + writer_state" where
  "writer_step st frame =
     (if frameID frame = wantedID st then
        (case last_frame_cut st frame of
           Inl e \<Rightarrow> Inl e
         | Inr v \<Rightarrow>
             (let st1 = st\<lparr>file_bytes := write_at (file_bytes st) v (nextWriteByte st),
                           nextWriteByte := nextWriteByte st + processedBytesPerFrame,
                           wantedID := wantedID st + 1\<rparr>
              in if keysLen st1 = 0 then Inr st1 else writer_drain st1))
      else Inr (buffer_insert st frame))"

fun writer_second :: "writer_state \<Rightarrow> frameData list \<Rightarrow> error + writer_state" where
  "writer_second st [] = Inr st"
| "writer_second st (frame # rest) =
     (case writer_step st frame of Inl e \<Rightarrow> Inl e | Inr st1 \<Rightarrow> writer_second st1 rest)"

text \<open>
  The two loops of the writer goroutine, one after the other; \<open>writer_run\<close> gives the state
  in which the goroutine ends, \<open>writer\<close> the file it leaves.
\<close>

definition writer_run :: "frameData list \<Rightarrow> error + writer_state" where
  "writer_run digestedFramesChan =
     (case writer_first writer_init digestedFramesChan of
        Inl e \<Rightarrow> Inl e
      | Inr (st, rest) \<Rightarrow> writer_second st rest)"

definition writer :: "frameData list \<Rightarrow> error + byte list" where
  "writer digestedFramesChan =
     (case writer_run digestedFramesChan of
        Inl e \<Rightarrow> Inl e
      | Inr st \<Rightarrow> Inr (file_bytes st))"

section \<open>The Chunker of encode\<close>

text \<open>
  \<open>encode\<close> prepends the 8-byte big-endian length and cuts the result into segments of
  \<open>processedBytesPerFrame\<close> bytes, the last one possibly shorter. \<open>bytes[i:end]\<close> is
  \<open>take (end - i) (drop i bytes)\<close>.
\<close>

definition add_length_bytes :: "byte list \<Rightarrow> byte list" where
  "add_length_bytes bytes = PutUint64 (of_nat (length bytes)) @ bytes"

function chunk_loop :: "byte list \<Rightarrow> nat \<Rightarrow> byte list list \<Rightarrow> byte list list" where
  "chunk_loop bytes i rawFrames =
     (if i < length bytes then
        (let end1 = i + processedBytesPerFrame;
             end2 = (if end1 > length bytes then length bytes else end1)
         in chunk_loop bytes (i + processedBytesPerFrame)
              (rawFrames @ [take (end2 - i) (drop i bytes)]))
      else rawFrames)"
  by pat_completeness auto
termination
  by (relation "measure (\<lambda>(bytes, i, rawFrames). length bytes - i)")
     (auto simp: processedBytesPerFrame_def frameWidth_def frameHeight_def dotSize_def)

declare chunk_loop.simps [simp del]

definition rawFrames_of :: "byte list \<Rightarrow> byte list list" where
  "rawFrames_of file_in = chunk_loop (add_length_bytes file_in) 0 []"

section \<open>The Frame Packer of encode\<close>

text \<open>
  The \<open>serializer\<close> closure. Its local variables are the fields of the state; the loop
  variable \<open>i\<close> is the field \<open>iter_i\<close>, since the body assigns to it to leave the loop.
  \<open>width\<close> and \<open>height\<close> are the dot-grid sizes computed at the top of \<open>encode\<close>.
  \<open>copy(dst[lo:hi], src)\<close> panics when \<open>hi\<close> exceeds the capacity of \<open>dst\<close> and copies
  \<open>min (hi - lo) (len src)\<close> bytes otherwise.
\<close>

definition width :: nat where
  "width = frameWidth div dotSize"

definition height :: nat where
  "height = frameHeight div dotSize"

record serializer_state =
  pixelData :: "byte list"
  rowIterator :: nat
  columnIterator :: nat
  pixel :: "byte list"
  currByte :: nat
  bitInByte :: nat
  iter_i :: nat

definition copy_slice :: "byte list \<Rightarrow> nat \<Rightarrow> nat \<Rightarrow> byte list \<Rightarrow> error + byte list" where
  "copy_slice dst lo hi src =
     (if hi \<le> length dst \<and> lo \<le> hi then
        Inr (take lo dst @ take (hi - lo) src @ drop (lo + min (hi - lo) (length src)) dst)
      else Inl SliceBoundsOutOfRange)"

text \<open>The loop over the three colour channels of one macro-dot.\<close>

function channel_loop :: "byte list \<Rightarrow> nat \<Rightarrow> serializer_state \<Rightarrow> error + serializer_state" where
  "channel_loop frame j st =
     (if j < 3 then
        (if currByte st < length frame then
           (let st1 = st\<lparr>pixel := (pixel st)
                         [j := (if frame ! currByte st AND push_bit (bitInByte st) 1 \<noteq> 0
                                then 0xff else 0x00)]\<rparr>
            in if bitInByte st1 = 0 then
                 (let st2 = st1\<lparr>currByte := currByte st1 + 1\<rparr>
                  in if currByte st2 = length frame then Inr (st2\<lparr>iter_i := 2147483647\<rparr>)
                     else channel_loop frame (j + 1) (st2\<lparr>bitInByte := 7\<rparr>))
               else channel_loop frame (j + 1) (st1\<lparr>bitInByte := bitInByte st1 - 1\<rparr>))
         else Inl IndexOutOfRange)
      else Inr st)"
  by pat_completeness auto
termination
  by (relation "measure (\<lambda>(frame, j, st). 3 - j)") auto

declare channel_loop.simps [simp del]

text \<open>The two loops that copy the pixel over the block of the macro-dot.\<close>

function column_loop :: "nat \<Rightarrow> nat \<Rightarrow> serializer_state \<Rightarrow> error + serializer_state" where
  "column_loop row column st =
     (if column < columnIterator st * dotSize + dotSize then
        (let pixelCoords = column * 7680 + row * 4
         in case copy_slice (pixelData st) pixelCoords (pixelCoords + 3) (pixel st) of
              Inl e \<Rightarrow> Inl e
            | Inr pd \<Rightarrow> column_loop row (column + 1) (st\<lparr>pixelData := pd\<rparr>))
      else Inr st)"
  by pat_completeness auto
termination
  by (relation "measure (\<lambda>(row, column, st). columnIterator st * dotSize + dotSize - column)") auto

declare column_loop.simps [simp del]

lemma column_loop_frame:
  "column_loop row column st = Inr st' \<Longrightarrow>
   st' = st\<lparr>pixelData := pixelData st'\<rparr>"
proof (induction row column st rule: column_loop.induct)
  case (1 row column st)
  show ?case
  proof (cases "column < columnIterator st * dotSize + dotSize")
    case False
    with "1.prems" show ?thesis by (subst (asm) column_loop.simps) simp
  next
    case True
    from "1.prems" True obtain pd where
      pd: "copy_slice (pixelData st) (column * 7680 + row * 4) (column * 7680 + row * 4 + 3) (pixel st) = Inr pd"
      and rec: "column_loop row (column + 1) (st\<lparr>pixelData := pd\<rparr>) = Inr st'"
      by (subst (asm) column_loop.simps) (auto simp: Let_def split: sum.splits)
    from "1.IH"[OF True refl pd rec] show ?thesis by simp
  qed
qed

function row_loop :: "nat \<Rightarrow> serializer_state \<Rightarrow> error + serializer_state" where
  "row_loop row st =
     (if row < rowIterator st * dotSize + dotSize then
        (case column_loop row (columnIterator st * dotSize) st of
           Inl e \<Rightarrow> Inl e
         | Inr st1 \<Rightarrow> row_loop (row + 1) st1)
      else Inr st)"
  by pat_completeness auto
termination
proof (relation "measure (\<lambda>(row, st). rowIterator st * dotSize + dotSize - row)", goal_cases)
  case 1
  then show ?case by simp
next
  case (2 row st st1)
  from column_loop_frame[OF 2(2)] have "rowIterator st1 = rowIterator st"
    by (metis serializer_state.select_convs(2) serializer_state.surjective serializer_state.update_convs(1))
  with 2(1) show ?case by simp
qed

declare row_loop.simps [simp del]

lemma copy_slice_length: "copy_slice dst lo hi src = Inr pd \<Longrightarrow> length pd = length dst"
  by (auto simp: copy_slice_def split: if_splits)

lemma column_loop_length:
  "column_loop row column st = Inr st' \<Longrightarrow> length (pixelData st') = length (pixelData st)"
proof (induction row column st rule: column_loop.induct)
  case (1 row column st)
  show ?case
  proof (cases "column < columnIterator st * dotSize + dotSize")
    case False
    with "1.prems" show ?thesis by (subst (asm) column_loop.simps) simp
  next
    case True
    from "1.prems" True obtain pd where
      pd: "copy_slice (pixelData st) (column * 7680 + row * 4) (column * 7680 + row * 4 + 3) (pixel st) = Inr pd"
      and rec: "column_loop row (column + 1) (st\<lparr>pixelData := pd\<rparr>) = Inr st'"
      by (subst (asm) column_loop.simps) (auto simp: Let_def split: sum.splits)
    from "1.IH"[OF True refl pd rec] copy_slice_length[OF pd] show ?thesis by simp
  qed
qed

lemma row_loop_frame:
  "row_loop row st = Inr st' \<Longrightarrow>
   st' = st\<lparr>pixelData := pixelData st'\<rparr> \<and> length (pixelData st') = length (pixelData st)"
proof (induction row st rule: row_loop.induct)
  case (1 row st)
  show ?case
  proof (cases "row < rowIterator st * dotSize + dotSize")
    case False
    with "1.prems" show ?thesis by (subst (asm) row_loop.simps) simp
  next
    case True
    from "1.prems" True obtain st1 where
      c: "column_loop row (columnIterator st * dotSize) st = Inr st1"
      and rec: "row_loop (row + 1) st1 = Inr st'"
      by (subst (asm) row_loop.simps) (auto split: sum.splits)
    from "1.IH"[OF True c rec] column_loop_frame[OF c] column_loop_length[OF c]
    show ?thesis
      by (metis serializer_state.update_convs(1) serializer_state.surjective)
  qed
qed

lemma channel_loop_effect:
  "channel_loop frame j st = Inr st' \<Longrightarrow> currByte st < length frame \<Longrightarrow>
   pixelData st' = pixelData st \<and>
   ((iter_i st' = iter_i st \<and> currByte st' < length frame) \<or> currByte st' = length frame)"
proof (induction frame j st rule: channel_loop.induct)
  case (1 frame j st)
  show ?case
  proof (cases "j < 3")
    case False
    with "1.prems" show ?thesis by (subst (asm) channel_loop.simps) simp
  next
    case j: True
    define st1 where "st1 = st\<lparr>pixel := (pixel st)
                         [j := (if frame ! currByte st AND push_bit (bitInByte st) 1 \<noteq> 0
                                then 0xff else 0x00)]\<rparr>"
    show ?thesis
    proof (cases "bitInByte st = 0")
      case b0: True
      define st2 where "st2 = st1\<lparr>currByte := currByte st1 + 1\<rparr>"
      show ?thesis
      proof (cases "currByte st + 1 = length frame")
        case True
        have "channel_loop frame j st = Inr (st2\<lparr>iter_i := 2147483647\<rparr>)"
          using j b0 True "1.prems"(2)
          by (subst channel_loop.simps) (simp add: st1_def st2_def Let_def)
        with "1.prems"(1) True show ?thesis by (auto simp: st2_def st1_def)
      next
        case False
        have "channel_loop frame j st = channel_loop frame (j + 1) (st2\<lparr>bitInByte := 7\<rparr>)"
          using j b0 False "1.prems"(2)
          by (subst channel_loop.simps) (simp add: st1_def st2_def Let_def)
        with "1.prems"(1) have r: "channel_loop frame (j + 1) (st2\<lparr>bitInByte := 7\<rparr>) = Inr st'" by simp
        have "bitInByte st1 = 0" using b0 by (simp add: st1_def)
        moreover have "currByte st2 \<noteq> length frame" using False by (simp add: st2_def st1_def)
        moreover have "currByte (st2\<lparr>bitInByte := 7\<rparr>) < length frame"
          using False "1.prems"(2) by (simp add: st2_def st1_def)
        ultimately show ?thesis
          using "1.IH"(1)[OF j "1.prems"(2) st1_def _ st2_def _ r] 
          by (simp add: st2_def st1_def)
      qed
    next
      case False
      have "channel_loop frame j st = channel_loop frame (j + 1) (st1\<lparr>bitInByte := bitInByte st1 - 1\<rparr>)"
        using j False "1.prems"(2)
        by (subst channel_loop.simps) (simp add: st1_def Let_def)
      with "1.prems"(1) have r: "channel_loop frame (j + 1) (st1\<lparr>bitInByte := bitInByte st1 - 1\<rparr>) = Inr st'" by simp
      have "bitInByte st1 \<noteq> 0" using False by (simp add: st1_def)
      moreover have "currByte (st1\<lparr>bitInByte := bitInByte st1 - 1\<rparr>) < length frame"
        using "1.prems"(2) by (simp add: st1_def)
      ultimately show ?thesis
        using "1.IH"(2)[OF j "1.prems"(2) st1_def _ r]
        by (simp add: st1_def)
    qed
  qed
qed

lemma channel_loop_defined:
  "channel_loop frame 0 st = Inr st' \<Longrightarrow> currByte st < length frame"
  by (subst (asm) channel_loop.simps) (simp split: if_splits)

text \<open>
  The loop over \<open>i\<close>. It ends when \<open>i\<close> reaches the size of the bitmap, or one step
  after the channel loop has set \<open>i\<close> to 2147483647 at the last payload byte. The measure
  of termination is lexicographic: whether payload is left, then the distance of \<open>i\<close>
  to the end.
\<close>

function serializer_loop :: "byte list \<Rightarrow> serializer_state \<Rightarrow> error + serializer_state" where
  "serializer_loop frame st =
     (if iter_i st < length (pixelData st) then
        (case channel_loop frame 0 (st\<lparr>pixel := (pixel st)[0 := 0, 1 := 0, 2 := 0]\<rparr>) of
           Inl e \<Rightarrow> Inl e
         | Inr st2 \<Rightarrow>
             (case row_loop (rowIterator st2 * dotSize) st2 of
                Inl e \<Rightarrow> Inl e
              | Inr st3 \<Rightarrow>
                  (let st4 = st3\<lparr>rowIterator := rowIterator st3 + 1\<rparr>;
                       st5 = (if rowIterator st4 = width
                              then st4\<lparr>rowIterator := 0, columnIterator := columnIterator st4 + 1\<rparr>
                              else st4)
                   in serializer_loop frame (st5\<lparr>iter_i := iter_i st5 + 4\<rparr>))))
      else Inr st)"
  by pat_completeness auto
termination
proof (relation "measures [\<lambda>(frame, st). if currByte st < length frame then 1 else 0,
                           \<lambda>(frame, st). length (pixelData st) - iter_i st]", goal_cases)
  case 1
  then show ?case by simp
next
  case (2 frame st st2 st3 st4 st5)
  let ?st1 = "st\<lparr>pixel := (pixel st)[0 := 0, 1 := 0, 2 := 0]\<rparr>"
  have cb: "currByte st < length frame"
    using channel_loop_defined[OF 2(2)] by simp
  from channel_loop_effect[OF 2(2)] cb
  have e: "pixelData st2 = pixelData st"
    "(iter_i st2 = iter_i st \<and> currByte st2 < length frame) \<or> currByte st2 = length frame"
    by simp_all
  from row_loop_frame[OF 2(3)]
  have f: "st3 = st2\<lparr>pixelData := pixelData st3\<rparr>" "length (pixelData st3) = length (pixelData st2)"
    by simp_all
  have g: "currByte st3 = currByte st2" "iter_i st3 = iter_i st2"
    by (subst f(1), simp)+
  have h: "currByte st5 = currByte st3" "iter_i st5 = iter_i st3" "pixelData st5 = pixelData st3"
    using 2(4,5) by (auto split: if_splits)
  show ?case using cb e f(2) g h 2(1) by auto
qed

declare serializer_loop.simps [simp del]

definition serializer_init :: serializer_state where
  "serializer_init =
     \<lparr>pixelData = replicate (width * height * 4 * dotSize * dotSize) 0,
      rowIterator = 0, columnIterator = 0, pixel = replicate 3 0,
      currByte = 0, bitInByte = 7, iter_i = 0\<rparr>"

definition serializer :: "byte list \<Rightarrow> error + byte list" where
  "serializer frame =
     (case serializer_loop frame serializer_init of
        Inl e \<Rightarrow> Inl e
      | Inr st \<Rightarrow> Inr (pixelData st))"

section \<open>The Frame Unpacker of decode\<close>

text \<open>
  The frame digester goroutine. \<open>bitInByte\<close> is decremented to \<open>-1\<close> before it is reset,
  so it is an \<open>int\<close> here; the fields carry the suffix \<open>D\<close> to tell them from those of
  the serializer. The counter \<open>byteIterator\<close> of the source is written and never read;
  it is left out.
\<close>

record digester_state =
  processedBytes :: "byte list"
  currByteD :: nat
  bitInByteD :: int

definition digest_bit :: "byte \<Rightarrow> digester_state \<Rightarrow> error + digester_state" where
  "digest_bit b st =
     (case (if b AND 0x80 \<noteq> 0 then
              (if currByteD st < length (processedBytes st) then
                 Inr (st\<lparr>processedBytes := (processedBytes st)
                         [currByteD st := processedBytes st ! currByteD st OR
                                          push_bit (nat (bitInByteD st)) 1]\<rparr>)
               else Inl IndexOutOfRange)
            else Inr st) of
        Inl e \<Rightarrow> Inl e
      | Inr st1 \<Rightarrow>
          (let st2 = st1\<lparr>bitInByteD := bitInByteD st1 - 1\<rparr>
           in if bitInByteD st2 = - 1
              then Inr (st2\<lparr>currByteD := currByteD st2 + 1, bitInByteD := 7\<rparr>)
              else Inr st2))"

fun digest_bits :: "byte list \<Rightarrow> digester_state \<Rightarrow> error + digester_state" where
  "digest_bits [] st = Inr st"
| "digest_bits (b # bs) st =
     (case digest_bit b st of Inl e \<Rightarrow> Inl e | Inr st1 \<Rightarrow> digest_bits bs st1)"

function pixel_loop :: "byte list \<Rightarrow> nat \<Rightarrow> nat \<Rightarrow> digester_state \<Rightarrow> error + digester_state" where
  "pixel_loop bytes line pix st =
     (if pix < 5760 then
        (let pixelCoords = line * 5760 + pix
         in if pixelCoords + 3 \<le> length bytes then
              (case digest_bits (take 3 (drop pixelCoords bytes)) st of
                 Inl e \<Rightarrow> Inl e
               | Inr st1 \<Rightarrow> pixel_loop bytes line (pix + 24) st1)
            else Inl SliceBoundsOutOfRange)
      else Inr st)"
  by pat_completeness auto
termination
  by (relation "measure (\<lambda>(bytes, line, pix, st). 5760 - pix)") auto

declare pixel_loop.simps [simp del]

function line_loop :: "byte list \<Rightarrow> nat \<Rightarrow> digester_state \<Rightarrow> error + digester_state" where
  "line_loop bytes line st =
     (if line < 1080 then
        (case pixel_loop bytes line 9 st of
           Inl e \<Rightarrow> Inl e
         | Inr st1 \<Rightarrow> line_loop bytes (line + 8) st1)
      else Inr st)"
  by pat_completeness auto
termination
  by (relation "measure (\<lambda>(bytes, line, st). 1080 - line)") auto

declare line_loop.simps [simp del]

definition digester_init :: digester_state where
  "digester_init =
     \<lparr>processedBytes = replicate processedBytesPerFrame 0, currByteD = 0, bitInByteD = 7\<rparr>"

definition digest :: "byte list \<Rightarrow> error + byte list" where
  "digest bytes =
     (case line_loop bytes 3 digester_init of
        Inl e \<Rightarrow> Inl e
      | Inr st \<Rightarrow> Inr (processedBytes st))"

section \<open>The two pipelines\<close>

text \<open>
  The goroutines of \<open>encode\<close> and \<open>decode\<close> exchange frames over unbuffered channels. The
  workers take the frames in index order and hand their results to the single reassembly
  goroutine in an order that depends on scheduling. That order is the parameter \<open>order\<close> of
  the pipelines: the list of frame indices as they arrive at the reassembly stage. With
  one worker thread it is \<open>[0..<n]\<close>; with two or more, a frame may overtake its
  predecessors. A panic in any goroutine ends the program: the pipeline returns the
  error.
\<close>

fun sequence_sum :: "(error + 'a) list \<Rightarrow> error + 'a list" where
  "sequence_sum [] = Inr []"
| "sequence_sum (r # rs) =
     (case r of
        Inl e \<Rightarrow> Inl e
      | Inr v \<Rightarrow> (case sequence_sum rs of Inl e \<Rightarrow> Inl e | Inr vs \<Rightarrow> Inr (v # vs)))"

definition encode :: "nat list \<Rightarrow> byte list \<Rightarrow> error + byte list" where
  "encode order file_in =
     (case sequence_sum (map serializer (rawFrames_of file_in)) of
        Inl e \<Rightarrow> Inl e
      | Inr bitmaps \<Rightarrow>
          ffmpegInstance (map (\<lambda>id. \<lparr>frameID = id, frameValue = bitmaps ! id\<rparr>) order))"

text \<open>
  Modelled from the spec: the external codec, which the spec assumes to deliver every
  frame's pixels losslessly. \<open>encode\<close> writes RGBA frames of
  \<open>frameWidth * frameHeight * 4\<close> bytes to it, \<open>decode\<close> reads RGB24 frames of
  \<open>rawBytesPerFrame\<close> bytes from it: the codec keeps the three colour bytes of every pixel
  of every complete frame, in order, and drops the alpha byte.
\<close>

function chunks :: "nat \<Rightarrow> byte list \<Rightarrow> byte list list" where
  "chunks n xs = (if 0 < n \<and> n \<le> length xs then take n xs # chunks n (drop n xs) else [])"
  by pat_completeness auto
termination
  by (relation "measure (\<lambda>(n, xs). length xs)") auto

declare chunks.simps [simp del]

definition rgba_to_rgb24 :: "byte list \<Rightarrow> byte list" where
  "rgba_to_rgb24 px = map (\<lambda>k. px ! (4 * (k div 3) + k mod 3)) [0..<3 * (length px div 4)]"

definition codec :: "byte list \<Rightarrow> byte list" where
  "codec stdin_bytes = concat (map rgba_to_rgb24 (chunks (frameWidth * frameHeight * 4) stdin_bytes))"

text \<open>
  The reader goroutine of \<open>decode\<close>: it fills a buffer of \<open>rawBytesPerFrame\<close> bytes from
  the codec's output and sends each full buffer with the next frame number; bytes after
  the last full frame are dropped.
\<close>

definition ffmpeg_reader :: "byte list \<Rightarrow> frameData list" where
  "ffmpeg_reader stdout_bytes =
     map (\<lambda>(frameCount, frameDataBuffer). \<lparr>frameID = frameCount, frameValue = frameDataBuffer\<rparr>)
         (enumerate 0 (chunks rawBytesPerFrame stdout_bytes))"

definition digest_frame :: "frameData \<Rightarrow> error + frameData" where
  "digest_frame frame =
     (case digest (frameValue frame) of
        Inl e \<Rightarrow> Inl e
      | Inr processed \<Rightarrow> Inr (frame\<lparr>frameValue := processed\<rparr>))"

definition decode :: "nat list \<Rightarrow> byte list \<Rightarrow> error + byte list" where
  "decode order stdout_bytes =
     (case sequence_sum (map digest_frame (ffmpeg_reader stdout_bytes)) of
        Inl e \<Rightarrow> Inl e
      | Inr digested \<Rightarrow> writer (map (\<lambda>id. digested ! id) order))"

text \<open>
  Encoding a file and decoding the video: \<open>eorder\<close> and \<open>dorder\<close> are the arrival orders at
  the Ordered Emitter and at the Ordered Writer.
\<close>

definition roundtrip :: "nat list \<Rightarrow> nat list \<Rightarrow> byte list \<Rightarrow> error + byte list" where
  "roundtrip eorder dorder file_in =
     (case encode eorder file_in of
        Inl e \<Rightarrow> Inl e
      | Inr stdin_bytes \<Rightarrow> decode dorder (codec stdin_bytes))"

section \<open>Invariants of the reassembly engine\<close>

text \<open>
  The invariant of the reorder buffer: \<open>keys\<close> is sorted and holds exactly the indices of
  the map, \<open>keysLen\<close> is its length, and every buffered index is beyond the cursor.
  \<open>emitter_pre\<close> is what holds inside the drain loop, where the head of \<open>keys\<close> may equal
  the cursor; \<open>v\<close> gives the payload of each index and \<open>S\<close> is the set of indices
  received so far.
\<close>

definition reorder_inv :: "'a reorder_state_scheme \<Rightarrow> bool" where
  "reorder_inv st \<longleftrightarrow>
     sorted (keys st) \<and> distinct (keys st) \<and> keysLen st = length (keys st) \<and>
     dom (buffer st) = set (keys st) \<and> (\<forall>k \<in> set (keys st). wantedID st < k)"

definition emitter_pre :: "(nat \<Rightarrow> byte list) \<Rightarrow> nat set \<Rightarrow> emitter_state \<Rightarrow> bool" where
  "emitter_pre v S st \<longleftrightarrow>
     sorted (keys st) \<and> distinct (keys st) \<and> keysLen st = length (keys st) \<and>
     dom (buffer st) = set (keys st) \<and> (\<forall>k \<in> set (keys st). wantedID st \<le> k) \<and>
     (\<forall>k \<in> set (keys st). buffer st k = Some (v k)) \<and>
     stdin st = concat (map v [0..<wantedID st]) \<and>
     {0..<wantedID st} \<union> set (keys st) = S"

definition emitter_inv :: "(nat \<Rightarrow> byte list) \<Rightarrow> nat set \<Rightarrow> emitter_state \<Rightarrow> bool" where
  "emitter_inv v S st \<longleftrightarrow> emitter_pre v S st \<and> (\<forall>k \<in> set (keys st). wantedID st < k)"

section \<open>The bitmap the claims describe\<close>

text \<open>
  \<open>coord y x c\<close> is the index of channel \<open>c\<close> of the pixel in line \<open>y\<close>, column \<open>x\<close> of
  the RGBA bitmap (7680 = 1920 * 4 bytes per line). \<open>payload_bit frame n\<close> is bit \<open>n\<close> of
  the payload, counted from the most significant bit of byte 0, and false past its end.
  \<open>dot_of y x\<close> is the row-major index of the macro-dot that covers the pixel, and
  \<open>pack_pixel\<close> is the channel value the claims give that pixel. \<open>serializer_inv\<close> is
  the invariant of the loop over \<open>i\<close> before macro-dot \<open>d\<close>.
\<close>

definition coord :: "nat \<Rightarrow> nat \<Rightarrow> nat \<Rightarrow> nat" where
  "coord y x c = y * 7680 + x * 4 + c"

definition payload_bit :: "byte list \<Rightarrow> nat \<Rightarrow> bool" where
  "payload_bit frame n \<longleftrightarrow> n < 8 * length frame \<and> bit (frame ! (n div 8)) (7 - n mod 8)"

definition dot_of :: "nat \<Rightarrow> nat \<Rightarrow> nat" where
  "dot_of y x = (y div dotSize) * width + x div dotSize"

definition pack_pixel :: "byte list \<Rightarrow> nat \<Rightarrow> nat \<Rightarrow> nat \<Rightarrow> byte" where
  "pack_pixel frame y x c = (if c < 3 \<and> payload_bit frame (3 * dot_of y x + c) then 0xff else 0)"

definition serializer_inv :: "byte list \<Rightarrow> nat \<Rightarrow> serializer_state \<Rightarrow> bool" where
  "serializer_inv frame d st \<longleftrightarrow>
     iter_i st = 4 * d \<and> rowIterator st = d mod 240 \<and> columnIterator st = d div 240 \<and>
     currByte st = (3 * d) div 8 \<and> bitInByte st = 7 - (3 * d) mod 8 \<and>
     length (pixel st) = 3 \<and> length (pixelData st) = 8294400 \<and>
     3 * d < 8 * length frame \<and>
     (\<forall>y x c. y < 1080 \<longrightarrow> x < 1920 \<longrightarrow> c < 4 \<longrightarrow>
        pixelData st ! coord y x c = (if dot_of y x < d then pack_pixel frame y x c else 0))"

section \<open>The samples the Frame Unpacker reads\<close>

text \<open>
  \<open>rgb_coord y x c\<close> is the index of channel \<open>c\<close> of the pixel in line \<open>y\<close>, column \<open>x\<close>
  of the RGB24 bitmap (5760 = 1920 * 3 bytes per line). \<open>sample_pos n\<close> is the byte the
  loops of the digester read for bit \<open>n\<close> of the output: the lines are 3, 11, 19, ... and
  the byte offsets in a line 9, 33, 57, ..., that is pixel 3 of each block of 8 in both
  directions. \<open>digester_inv\<close> is the invariant of the digester after \<open>n\<close> bits.
\<close>

definition rgb_coord :: "nat \<Rightarrow> nat \<Rightarrow> nat \<Rightarrow> nat" where
  "rgb_coord y x c = y * 5760 + x * 3 + c"

definition sample_pos :: "nat \<Rightarrow> nat" where
  "sample_pos n =
     rgb_coord (dotSize * (n div 3 div width) + 3) (dotSize * (n div 3 mod width) + 3) (n mod 3)"

definition sample_bit :: "byte list \<Rightarrow> nat \<Rightarrow> bool" where
  "sample_bit bytes n \<longleftrightarrow> bit (bytes ! sample_pos n) 7"

definition digester_inv :: "(nat \<Rightarrow> bool) \<Rightarrow> nat \<Rightarrow> digester_state \<Rightarrow> bool" where
  "digester_inv src n st \<longleftrightarrow>
     currByteD st = n div 8 \<and> bitInByteD st = 7 - int (n mod 8) \<and>
     length (processedBytes st) = 12150 \<and>
     (\<forall>m<97200. payload_bit (processedBytes st) m \<longleftrightarrow> m < n \<and> src m)"

text \<open>
  The sampling position as claim C4 words it: the centre offset \<open>dotSize / 2 = 4\<close> in both
  directions. \<open>centre_bitmap\<close> is black but for the red channel of pixel (4, 4);
  \<open>corner_bitmap\<close> is black but for the red channel of pixel (3, 3).
\<close>

definition claimed_sample_pos :: "nat \<Rightarrow> nat" where
  "claimed_sample_pos n =
     rgb_coord (dotSize * (n div 3 div width) + dotSize div 2)
               (dotSize * (n div 3 mod width) + dotSize div 2) (n mod 3)"

definition centre_bitmap :: "byte list" where
  "centre_bitmap = (replicate rawBytesPerFrame 0)[rgb_coord 4 4 0 := 0xff]"

definition corner_bitmap :: "byte list" where
  "corner_bitmap = (replicate rawBytesPerFrame 0)[rgb_coord 3 3 0 := 0xff]"

text \<open>
  Two bitmaps for claim C5: the second is the first with every \<open>0xFF\<close> lowered to \<open>0xE0\<close>
  and every \<open>0x00\<close> raised to \<open>0x10\<close>.
\<close>

definition bright_bitmap :: "byte list" where
  "bright_bitmap = replicate 3110400 0xFF @ replicate 3110400 0x00"

definition dimmed_bitmap :: "byte list" where
  "dimmed_bitmap = replicate 3110400 0xE0 @ replicate 3110400 0x10"

section \<open>The padded segment\<close>

text \<open>
  What the Frame Unpacker returns for the bitmap of a segment: the segment, zero-filled
  to \<open>processedBytesPerFrame\<close> bytes.
\<close>

definition pad_frame :: "byte list \<Rightarrow> byte list" where
  "pad_frame frame = frame @ replicate (processedBytesPerFrame - length frame) 0"

section \<open>The reorder buffer of the Ordered Writer\<close>

text \<open>
  In decode the cursor starts at 1 and frame 0 is awaited in a loop of its own, so a
  buffered index may equal the cursor: \<open>reorder_inv_weak\<close> is \<open>reorder_inv\<close> with
  \<open>wantedID st \<le> k\<close>. \<open>writer_ok R\<close> adds what the proof needs about the set \<open>R\<close> of
  indices received so far. \<open>overtaking_frames\<close> are the two digested frames of a file
  of 20000 bytes \<open>0x41\<close>, frame 1 arriving before frame 0; \<open>pending_frames\<close> is that
  arrival sequence before frame 0 has come. \<open>gap_frames\<close> are frames 0 and 2 of a file of
  24293 bytes \<open>0x41\<close>, frame 1 not yet received.
\<close>

definition reorder_inv_weak :: "'a reorder_state_scheme \<Rightarrow> bool" where
  "reorder_inv_weak st \<longleftrightarrow>
     sorted (keys st) \<and> distinct (keys st) \<and> keysLen st = length (keys st) \<and>
     dom (buffer st) = set (keys st) \<and> (\<forall>k \<in> set (keys st). wantedID st \<le> k)"

definition writer_ok :: "nat set \<Rightarrow> writer_state \<Rightarrow> bool" where
  "writer_ok R st \<longleftrightarrow>
     reorder_inv_weak st \<and> set (keys st) \<subseteq> R \<and>
     (\<forall>i. 0 < i \<and> i < wantedID st \<longrightarrow> i \<in> R) \<and> 0 < wantedID st"

definition overtaking_frames :: "frameData list" where
  "overtaking_frames =
     [\<lparr>frameID = 1, frameValue = replicate 7858 0x41 @ replicate 4292 0\<rparr>,
      \<lparr>frameID = 0, frameValue = PutUint64 20000 @ replicate 12142 0x41\<rparr>]"

definition pending_frames :: "frameData list" where
  "pending_frames = [\<lparr>frameID = 1, frameValue = replicate 7858 0x41 @ replicate 4292 0\<rparr>]"

definition gap_frames :: "frameData list" where
  "gap_frames =
     [\<lparr>frameID = 0, frameValue = PutUint64 24293 @ replicate 12142 0x41\<rparr>,
      \<lparr>frameID = 2, frameValue = 0x41 # replicate 12149 0\<rparr>]"

section \<open>The constants\<close>

lemma processedBytesPerFrame_eq: "processedBytesPerFrame = 12150"
  by (simp add: processedBytesPerFrame_def frameWidth_def frameHeight_def dotSize_def)

lemma rawBytesPerFrame_eq: "rawBytesPerFrame = 6220800"
  by (simp add: rawBytesPerFrame_def frameWidth_def frameHeight_def)

section \<open>Binary search and ordered insertion\<close>

lemma search_loop_spec:
  "i \<le> j \<Longrightarrow> j \<le> length ks \<Longrightarrow> sorted ks \<Longrightarrow>
   (\<forall>k<i. ks ! k < x) \<Longrightarrow> (\<forall>k. j \<le> k \<and> k < length ks \<longrightarrow> x \<le> ks ! k) \<Longrightarrow>
   search_loop i j (\<lambda>h. x \<le> ks ! h) \<le> length ks \<and>
   (\<forall>k < search_loop i j (\<lambda>h. x \<le> ks ! h). ks ! k < x) \<and>
   (\<forall>k. search_loop i j (\<lambda>h. x \<le> ks ! h) \<le> k \<and> k < length ks \<longrightarrow> x \<le> ks ! k)"
proof (induction "j - i" arbitrary: i j rule: less_induct)
  case less
  show ?case
  proof (cases "i < j")
    case False
    with less.prems have "i = j" by simp
    with less.prems show ?thesis by (subst (1 2 3) search_loop.simps) auto
  next
    case True
    define h where "h = (i + j) div 2"
    have hb: "i \<le> h" "h < j" using True by (auto simp: h_def)
    show ?thesis
    proof (cases "x \<le> ks ! h")
      case False
      have lo: "\<forall>k<h + 1. ks ! k < x"
      proof (intro allI impI)
        fix k assume "k < h + 1"
        then have "ks ! k \<le> ks ! h"
          using less.prems(2,3) hb by (auto intro!: sorted_nth_mono)
        with False show "ks ! k < x" by simp
      qed
      have eq: "search_loop i j (\<lambda>h. x \<le> ks ! h) = search_loop (h + 1) j (\<lambda>h. x \<le> ks ! h)"
        using True False by (subst search_loop.simps) (simp add: h_def Let_def)
      have "j - (h + 1) < j - i" using hb by simp
      from less.hyps[OF this _ less.prems(2,3) lo less.prems(5)] hb
      show ?thesis unfolding eq by simp
    next
      case xle: True
      have hi: "\<forall>k. h \<le> k \<and> k < length ks \<longrightarrow> x \<le> ks ! k"
      proof (intro allI impI)
        fix k assume "h \<le> k \<and> k < length ks"
        then have "ks ! h \<le> ks ! k"
          using less.prems(3) by (auto intro!: sorted_nth_mono)
        with xle show "x \<le> ks ! k" by simp
      qed
      have eq: "search_loop i j (\<lambda>h. x \<le> ks ! h) = search_loop i h (\<lambda>h. x \<le> ks ! h)"
        using True xle by (subst search_loop.simps) (simp add: h_def Let_def)
      have hl: "h \<le> length ks" using hb less.prems(2) by simp
      have "h - i < j - i" using hb by simp
      from less.hyps[OF this hb(1) hl less.prems(3,4) hi]
      show ?thesis unfolding eq by simp
    qed
  qed
qed

lemma insert_key_eq:
  assumes "r = sort_Search (length ks) (\<lambda>i. x \<le> ks ! i)" "r \<le> length ks"
  shows "insert_key ks x = take r ks @ x # drop r ks"
proof -
  have a: "take (r + 1) (ks @ [0]) = take r ks @ [(ks @ [0]) ! r]"
    using assms(2) take_Suc_conv_app_nth[of r "ks @ [0]"] by simp
  have b: "take (length (ks @ [0]) - (r + 1)) (drop r (ks @ [0])) = drop r ks"
    using assms(2) by simp
  have c: "(take r ks @ [y] @ drop r ks)[r := x] = take r ks @ x # drop r ks" for y
    using assms(2) by (simp add: list_update_append)
  have "copy_shift (ks @ [0]) r = take r ks @ [(ks @ [0]) ! r] @ drop r ks"
    unfolding copy_shift_def a b by simp
  then have "(copy_shift (ks @ [0]) r)[r := x] = take r ks @ x # drop r ks"
    using c by simp
  then show ?thesis
    using assms(1) by (simp add: insert_key_def Let_def)
qed

lemma sort_Search_sorted:
  assumes "sorted ks" "r = sort_Search (length ks) (\<lambda>i. x \<le> ks ! i)"
  shows "r \<le> length ks" "\<forall>k<r. ks ! k < x" "\<forall>k. r \<le> k \<and> k < length ks \<longrightarrow> x \<le> ks ! k"
proof -
  have "\<forall>k. length ks \<le> k \<and> k < length ks \<longrightarrow> x \<le> ks ! k" by auto
  from search_loop_spec[of 0 "length ks" ks x, OF _ _ assms(1) _ this]
  show "r \<le> length ks" "\<forall>k<r. ks ! k < x" "\<forall>k. r \<le> k \<and> k < length ks \<longrightarrow> x \<le> ks ! k"
    by (simp_all add: assms(2) sort_Search_def)
qed

lemma set_insert_key: "sorted ks \<Longrightarrow> set (insert_key ks x) = insert x (set ks)"
proof -
  assume s: "sorted ks"
  define r where "r = sort_Search (length ks) (\<lambda>i. x \<le> ks ! i)"
  have "r \<le> length ks" using sort_Search_sorted(1)[OF s r_def] .
  then have "insert_key ks x = take r ks @ x # drop r ks" by (rule insert_key_eq[OF r_def])
  moreover have "set (take r ks) \<union> set (drop r ks) = set ks"
    by (metis append_take_drop_id set_append)
  ultimately show ?thesis by auto
qed

lemma length_insert_key: "sorted ks \<Longrightarrow> length (insert_key ks x) = Suc (length ks)"
proof -
  assume s: "sorted ks"
  define r where "r = sort_Search (length ks) (\<lambda>i. x \<le> ks ! i)"
  have "r \<le> length ks" using sort_Search_sorted(1)[OF s r_def] .
  then have "insert_key ks x = take r ks @ x # drop r ks" by (rule insert_key_eq[OF r_def])
  then show ?thesis using \<open>r \<le> length ks\<close> by simp
qed

lemma sorted_insert_key: "sorted ks \<Longrightarrow> sorted (insert_key ks x)"
proof -
  assume s: "sorted ks"
  define r where "r = sort_Search (length ks) (\<lambda>i. x \<le> ks ! i)"
  have r: "r \<le> length ks" "\<forall>k<r. ks ! k < x" "\<forall>k. r \<le> k \<and> k < length ks \<longrightarrow> x \<le> ks ! k"
    using sort_Search_sorted[OF s r_def] by simp_all
  have eq: "insert_key ks x = take r ks @ x # drop r ks" using r(1) by (rule insert_key_eq[OF r_def])
  have a: "\<forall>y\<in>set (take r ks). y \<le> x"
    using r(1,2) by (auto simp: in_set_conv_nth less_imp_le)
  have b: "\<forall>y\<in>set (drop r ks). x \<le> y"
    using r(1,3) by (auto simp: in_set_conv_nth)
  have "sorted (take r ks)" "sorted (drop r ks)"
    using s by (simp_all add: sorted_wrt_take sorted_wrt_drop)
  with a b show ?thesis unfolding eq
    by (auto simp: sorted_append intro: order_trans)
qed

lemma distinct_insert_key: "sorted ks \<Longrightarrow> distinct ks \<Longrightarrow> x \<notin> set ks \<Longrightarrow> distinct (insert_key ks x)"
proof -
  assume s: "sorted ks" and d: "distinct ks" and x: "x \<notin> set ks"
  define r where "r = sort_Search (length ks) (\<lambda>i. x \<le> ks ! i)"
  have "r \<le> length ks" using sort_Search_sorted(1)[OF s r_def] .
  then have eq: "insert_key ks x = take r ks @ x # drop r ks" by (rule insert_key_eq[OF r_def])
  have "set (take r ks) \<inter> set (drop r ks) = {}"
    using d by (simp add: set_take_disj_set_drop_if_distinct)
  with x d show ?thesis unfolding eq
    by (auto dest: in_set_takeD in_set_dropD)
qed

section \<open>The Ordered Emitter is independent of the arrival order\<close>

lemma emitter_drain_correct:
  "emitter_pre v S st \<Longrightarrow> keys st \<noteq> [] \<Longrightarrow>
   \<exists>st'. emitter_drain st = Inr st' \<and> emitter_inv v S st'"
proof (induction "length (keys st)" arbitrary: st rule: less_induct)
  case less
  from less.prems(2) obtain k ks where ks: "keys st = k # ks" by (cases "keys st") auto
  show ?case
  proof (cases "k = wantedID st")
    case False
    have "emitter_drain st = Inr st"
      using ks False by (subst emitter_drain.simps) simp
    moreover have "\<forall>j \<in> set (keys st). wantedID st < j"
    proof
      fix j assume j: "j \<in> set (keys st)"
      from less.prems(1) have "wantedID st \<le> k" "sorted (k # ks)"
        using ks by (auto simp: emitter_pre_def)
      with False j ks show "wantedID st < j" by auto
    qed
    ultimately show ?thesis using less.prems(1) by (simp add: emitter_inv_def)
  next
    case True
    define st1 where "st1 = st\<lparr>stdin := stdin st @ map_get (buffer st) (wantedID st),
                          buffer := (buffer st)(wantedID st := None),
                          keys := ks,
                          keysLen := keysLen st - 1,
                          wantedID := wantedID st + 1\<rparr>"
    have step: "emitter_drain st = (if keysLen st1 = 0 then Inr st1 else emitter_drain st1)"
      using ks True by (subst emitter_drain.simps) (simp add: st1_def Let_def)
    have P: "sorted (k # ks)" "distinct (k # ks)" "keysLen st = Suc (length ks)"
      "dom (buffer st) = set (k # ks)" "\<forall>j \<in> set (k # ks). wantedID st \<le> j"
      "\<forall>j \<in> set (k # ks). buffer st j = Some (v j)"
      "stdin st = concat (map v [0..<wantedID st])"
      "{0..<wantedID st} \<union> set (k # ks) = S"
      using less.prems(1) ks by (simp_all add: emitter_pre_def)
    have bk: "map_get (buffer st) (wantedID st) = v (wantedID st)"
      using P(6) True by (simp add: map_get_def)
    have ge: "\<forall>j \<in> set ks. wantedID st + 1 \<le> j"
    proof
      fix j assume j: "j \<in> set ks"
      with P(5) have "wantedID st \<le> j" by simp
      moreover from j P(2) True have "j \<noteq> wantedID st" by auto
      ultimately show "wantedID st + 1 \<le> j" by simp
    qed
    have pre1: "emitter_pre v S st1"
      unfolding emitter_pre_def
    proof (intro conjI)
      show "sorted (keys st1)" using P(1) by (simp add: st1_def)
      show "distinct (keys st1)" using P(2) by (simp add: st1_def)
      show "keysLen st1 = length (keys st1)" using P(3) by (simp add: st1_def)
      show "dom (buffer st1) = set (keys st1)" using P(2,4) True by (auto simp: st1_def)
      show "\<forall>k\<in>set (keys st1). wantedID st1 \<le> k" using ge by (simp add: st1_def)
      show "\<forall>k\<in>set (keys st1). buffer st1 k = Some (v k)"
        using P(2,6) True by (auto simp: st1_def)
      show "stdin st1 = concat (map v [0..<wantedID st1])"
        using P(7) bk by (simp add: st1_def)
      show "{0..<wantedID st1} \<union> set (keys st1) = S"
        using P(8) True by (auto simp: st1_def)
    qed
    show ?thesis
    proof (cases "keysLen st1 = 0")
      case True
      then have "keys st1 = []" using pre1 by (simp add: emitter_pre_def)
      with pre1 step True show ?thesis by (simp add: emitter_inv_def)
    next
      case False
      then have ne: "keys st1 \<noteq> []" using pre1 by (auto simp: emitter_pre_def)
      have "length (keys st1) < length (keys st)" using ks by (simp add: st1_def)
      from less.hyps[OF this pre1 ne] step False show ?thesis by simp
    qed
  qed
qed

lemma emitter_step_correct:
  assumes "emitter_inv v S st" "i \<notin> S"
  shows "\<exists>st'. emitter_step st \<lparr>frameID = i, frameValue = v i\<rparr> = Inr st' \<and> emitter_inv v (insert i S) st'"
proof -
  have P: "sorted (keys st)" "distinct (keys st)" "keysLen st = length (keys st)"
      "dom (buffer st) = set (keys st)" "\<forall>j \<in> set (keys st). wantedID st < j"
      "\<forall>j \<in> set (keys st). buffer st j = Some (v j)"
      "stdin st = concat (map v [0..<wantedID st])"
      "{0..<wantedID st} \<union> set (keys st) = S"
    using assms(1) by (simp_all add: emitter_inv_def emitter_pre_def)
  have iS: "wantedID st \<le> i" "i \<notin> set (keys st)"
    using assms(2) P(8) by (auto simp: not_less[symmetric])
  show ?thesis
  proof (cases "i = wantedID st")
    case True
    define st1 where "st1 = st\<lparr>stdin := stdin st @ v i, wantedID := wantedID st + 1\<rparr>"
    have step: "emitter_step st \<lparr>frameID = i, frameValue = v i\<rparr> =
                (if keysLen st1 = 0 then Inr st1 else emitter_drain st1)"
      using True by (simp add: emitter_step_def st1_def Let_def)
    have pre1: "emitter_pre v (insert i S) st1"
      unfolding emitter_pre_def
    proof (intro conjI)
      show "sorted (keys st1)" using P(1) by (simp add: st1_def)
      show "distinct (keys st1)" using P(2) by (simp add: st1_def)
      show "keysLen st1 = length (keys st1)" using P(3) by (simp add: st1_def)
      show "dom (buffer st1) = set (keys st1)" using P(4) by (simp add: st1_def)
      show "\<forall>k\<in>set (keys st1). wantedID st1 \<le> k" using P(5) by (auto simp: st1_def)
      show "\<forall>k\<in>set (keys st1). buffer st1 k = Some (v k)" using P(6) by (simp add: st1_def)
      show "stdin st1 = concat (map v [0..<wantedID st1])" using P(7) True by (simp add: st1_def)
      show "{0..<wantedID st1} \<union> set (keys st1) = insert i S"
        using P(8) True by (auto simp: st1_def)
    qed
    show ?thesis
    proof (cases "keysLen st1 = 0")
      case True
      then have "keys st1 = []" using pre1 by (simp add: emitter_pre_def)
      with pre1 step True show ?thesis by (simp add: emitter_inv_def)
    next
      case False
      then have "keys st1 \<noteq> []" using pre1 by (auto simp: emitter_pre_def)
      from emitter_drain_correct[OF pre1 this] step False show ?thesis by simp
    qed
  next
    case False
    with iS have lt: "wantedID st < i" by simp
    define st1 where "st1 = buffer_insert st \<lparr>frameID = i, frameValue = v i\<rparr>"
    have step: "emitter_step st \<lparr>frameID = i, frameValue = v i\<rparr> = Inr st1"
      using False by (simp add: emitter_step_def st1_def)
    have k1: "keys st1 = insert_key (keys st) i" "buffer st1 = (buffer st)(i \<mapsto> v i)"
      "keysLen st1 = keysLen st + 1" "wantedID st1 = wantedID st" "stdin st1 = stdin st"
      by (simp_all add: st1_def buffer_insert_def)
    have sk: "set (keys st1) = insert i (set (keys st))"
      using P(1) by (simp add: k1 set_insert_key)
    have "emitter_pre v (insert i S) st1"
      unfolding emitter_pre_def
    proof (intro conjI)
      show "sorted (keys st1)" using P(1) by (simp add: k1 sorted_insert_key)
      show "distinct (keys st1)" using P(1,2) iS by (simp add: k1 distinct_insert_key)
      show "keysLen st1 = length (keys st1)" using P(1,3) by (simp add: k1 length_insert_key)
      show "dom (buffer st1) = set (keys st1)" using P(4) by (simp add: sk k1(2))
      show "\<forall>k\<in>set (keys st1). wantedID st1 \<le> k" using P(5) lt by (auto simp: sk k1(4))
      show "\<forall>k\<in>set (keys st1). buffer st1 k = Some (v k)" using P(6) by (auto simp: sk k1(2))
      show "stdin st1 = concat (map v [0..<wantedID st1])" using P(7) by (simp add: k1)
      show "{0..<wantedID st1} \<union> set (keys st1) = insert i S" using P(8) by (auto simp: sk k1(4))
    qed
    moreover have "\<forall>k\<in>set (keys st1). wantedID st1 < k" using P(5) lt by (auto simp: sk k1(4))
    ultimately show ?thesis using step by (simp add: emitter_inv_def)
  qed
qed

lemma emitter_loop_correct:
  "emitter_inv v S st \<Longrightarrow> distinct ids \<Longrightarrow> set ids \<inter> S = {} \<Longrightarrow>
   \<exists>st'. emitter_loop st (map (\<lambda>i. \<lparr>frameID = i, frameValue = v i\<rparr>) ids) = Inr st' \<and>
         emitter_inv v (S \<union> set ids) st'"
proof (induction ids arbitrary: st S)
  case Nil
  then show ?case by simp
next
  case (Cons i ids)
  from Cons.prems have "i \<notin> S" by auto
  from emitter_step_correct[OF Cons.prems(1) this]
  obtain st1 where st1: "emitter_step st \<lparr>frameID = i, frameValue = v i\<rparr> = Inr st1"
    "emitter_inv v (insert i S) st1" by blast
  have "distinct ids" "set ids \<inter> insert i S = {}" using Cons.prems by auto
  from Cons.IH[OF st1(2) this]
  obtain st' where "emitter_loop st1 (map (\<lambda>i. \<lparr>frameID = i, frameValue = v i\<rparr>) ids) = Inr st'"
    "emitter_inv v (insert i S \<union> set ids) st'" by blast
  with st1(1) show ?case by auto
qed

lemma emitter_inv_init: "emitter_inv v {} emitter_init"
  by (simp add: emitter_inv_def emitter_pre_def emitter_init_def)

lemma emitter_inv_complete:
  assumes "emitter_inv v {0..<n} st"
  shows "wantedID st = n \<and> keys st = [] \<and> buffer st = Map.empty \<and> stdin st = concat (map v [0..<n])"
proof -
  have P: "dom (buffer st) = set (keys st)" "\<forall>j \<in> set (keys st). wantedID st < j"
      "stdin st = concat (map v [0..<wantedID st])"
      "{0..<wantedID st} \<union> set (keys st) = {0..<n}"
    using assms by (simp_all add: emitter_inv_def emitter_pre_def)
  have e: "keys st = []"
  proof (rule ccontr)
    assume "keys st \<noteq> []"
    then obtain k where k: "k \<in> set (keys st)" by (cases "keys st") auto
    with P(2) have "wantedID st < k" by simp
    moreover from k P(4) have "k < n" by auto
    ultimately have "wantedID st \<in> {0..<n}" by simp
    with P(4) have "wantedID st \<in> set (keys st)" by auto
    with P(2) show False by auto
  qed
  with P(4) have "{0..<wantedID st} = {0..<n}" by simp
  then have "card {0..<wantedID st} = card {0..<n}" by simp
  then have "wantedID st = n" by simp
  with e P show ?thesis by auto
qed

section \<open>The Frame Packer writes the bitmap of the payload\<close>

lemma copy_slice_pixel:
  assumes "length src = 3" "lo + 3 \<le> length dst"
  shows "copy_slice dst lo (lo + 3) src = Inr (take lo dst @ src @ drop (lo + 3) dst)"
  using assms by (simp add: copy_slice_def)

lemma nth_copy_pixel:
  assumes "length src = 3" "lo + 3 \<le> length dst" "k < length dst"
  shows "(take lo dst @ src @ drop (lo + 3) dst) ! k =
         (if lo \<le> k \<and> k < lo + 3 then src ! (k - lo) else dst ! k)"
  using assms by (auto simp: nth_append min_def)

lemma coord_range:
  assumes "x < 1920" "c < 4" "row < 1920"
  shows "(column * 7680 + row * 4 \<le> coord y x c \<and> coord y x c < column * 7680 + row * 4 + 3)
         \<longleftrightarrow> (y = column \<and> x = row \<and> c < 3)"
proof -
  have "y < column \<or> y = column \<or> column < y" by arith
  moreover have "x < row \<or> x = row \<or> row < x" by arith
  moreover have "y < column \<Longrightarrow> y * 7680 + 7680 \<le> column * 7680"
    by (metis Suc_leI mult_Suc mult_le_mono1 add.commute)
  moreover have "column < y \<Longrightarrow> column * 7680 + 7680 \<le> y * 7680"
    by (metis Suc_leI mult_Suc mult_le_mono1 add.commute)
  ultimately show ?thesis using assms unfolding coord_def by auto
qed

lemma column_loop_spec:
  assumes "length (pixel st) = 3" "row < 1920"
    "(columnIterator st * dotSize + dotSize) * 7680 \<le> length (pixelData st)"
  shows "\<exists>st'. column_loop row column st = Inr st' \<and> st' = st\<lparr>pixelData := pixelData st'\<rparr> \<and>
           length (pixelData st') = length (pixelData st) \<and>
           (\<forall>y x c. x < 1920 \<longrightarrow> c < 4 \<longrightarrow> coord y x c < length (pixelData st) \<longrightarrow>
              pixelData st' ! coord y x c =
                (if column \<le> y \<and> y < columnIterator st * dotSize + dotSize \<and> x = row \<and> c < 3
                 then pixel st ! c else pixelData st ! coord y x c))"
  using assms
proof (induction row column st rule: column_loop.induct)
  case (1 row column st)
  let ?bound = "columnIterator st * dotSize + dotSize"
  show ?case
  proof (cases "column < ?bound")
    case False
    then have "column_loop row column st = Inr st" by (subst column_loop.simps) simp
    with False show ?thesis by auto
  next
    case True
    let ?pc = "column * 7680 + row * 4"
    let ?pd = "take ?pc (pixelData st) @ pixel st @ drop (?pc + 3) (pixelData st)"
    let ?st1 = "st\<lparr>pixelData := ?pd\<rparr>"
    have "(column + 1) * 7680 \<le> ?bound * 7680" using True by simp
    with "1.prems"(2,3) have inb: "?pc + 3 \<le> length (pixelData st)" by simp
    have cs: "copy_slice (pixelData st) ?pc (?pc + 3) (pixel st) = Inr ?pd"
      using copy_slice_pixel[OF "1.prems"(1) inb] .
    have step: "column_loop row column st = column_loop row (column + 1) ?st1"
      using True cs by (subst column_loop.simps) (simp add: Let_def)
    have len1: "length ?pd = length (pixelData st)" using inb "1.prems"(1) by simp
    have p1: "length (pixel ?st1) = 3" "(columnIterator ?st1 * dotSize + dotSize) * 7680 \<le> length (pixelData ?st1)"
      using "1.prems"(1,3) len1 by simp_all
    from "1.IH"[OF True refl cs p1(1) "1.prems"(2) p1(2)]
    obtain st' where st': "column_loop row (column + 1) ?st1 = Inr st'"
      "st' = ?st1\<lparr>pixelData := pixelData st'\<rparr>"
      "length (pixelData st') = length (pixelData ?st1)"
      "\<forall>y x c. x < 1920 \<longrightarrow> c < 4 \<longrightarrow> coord y x c < length (pixelData ?st1) \<longrightarrow>
              pixelData st' ! coord y x c =
                (if column + 1 \<le> y \<and> y < columnIterator ?st1 * dotSize + dotSize \<and> x = row \<and> c < 3
                 then pixel ?st1 ! c else pixelData ?st1 ! coord y x c)"
      by blast
    have fr: "st' = st\<lparr>pixelData := pixelData st'\<rparr>"
      by (subst st'(2)) simp
    have px: "pixelData st' ! coord y x c =
                (if column \<le> y \<and> y < ?bound \<and> x = row \<and> c < 3
                 then pixel st ! c else pixelData st ! coord y x c)"
      if b: "x < 1920" "c < 4" "coord y x c < length (pixelData st)" for y x c
    proof -
      have a: "pixelData st' ! coord y x c =
                (if column + 1 \<le> y \<and> y < ?bound \<and> x = row \<and> c < 3
                 then pixel st ! c else ?pd ! coord y x c)"
        using st'(4) b len1 by simp
      have r: "(?pc \<le> coord y x c \<and> coord y x c < ?pc + 3) \<longleftrightarrow> (y = column \<and> x = row \<and> c < 3)"
        using coord_range[OF b(1,2) "1.prems"(2)] .
      have n: "?pd ! coord y x c =
         (if ?pc \<le> coord y x c \<and> coord y x c < ?pc + 3 then pixel st ! (coord y x c - ?pc)
          else pixelData st ! coord y x c)"
        using nth_copy_pixel[OF "1.prems"(1) inb b(3)] .
      show ?thesis
      proof (cases "y = column \<and> x = row \<and> c < 3")
        case True
        then have "coord y x c - ?pc = c" by (simp add: coord_def)
        with True a n r \<open>column < ?bound\<close> show ?thesis by simp
      next
        case False
        with a n r show ?thesis by (auto simp: Suc_le_eq le_less)
      qed
    qed
    show ?thesis
      using step st'(1) fr st'(3) len1 px by auto
  qed
qed

lemma row_loop_spec:
  assumes "length (pixel st) = 3" "rowIterator st * dotSize + dotSize \<le> 1920"
    "(columnIterator st * dotSize + dotSize) * 7680 \<le> length (pixelData st)"
  shows "\<exists>st'. row_loop row st = Inr st' \<and> st' = st\<lparr>pixelData := pixelData st'\<rparr> \<and>
           length (pixelData st') = length (pixelData st) \<and>
           (\<forall>y x c. x < 1920 \<longrightarrow> c < 4 \<longrightarrow> coord y x c < length (pixelData st) \<longrightarrow>
              pixelData st' ! coord y x c =
                (if columnIterator st * dotSize \<le> y \<and> y < columnIterator st * dotSize + dotSize \<and>
                    row \<le> x \<and> x < rowIterator st * dotSize + dotSize \<and> c < 3
                 then pixel st ! c else pixelData st ! coord y x c))"
  using assms
proof (induction row st rule: row_loop.induct)
  case (1 row st)
  let ?rb = "rowIterator st * dotSize + dotSize"
  let ?cl = "columnIterator st * dotSize"
  show ?case
  proof (cases "row < ?rb")
    case False
    then have "row_loop row st = Inr st" by (subst row_loop.simps) simp
    with False show ?thesis by auto
  next
    case True
    with "1.prems"(2) have r: "row < 1920" by simp
    from column_loop_spec[OF "1.prems"(1) r "1.prems"(3), of ?cl]
    obtain st1 where st1: "column_loop row ?cl st = Inr st1"
      "st1 = st\<lparr>pixelData := pixelData st1\<rparr>"
      "length (pixelData st1) = length (pixelData st)"
      "\<forall>y x c. x < 1920 \<longrightarrow> c < 4 \<longrightarrow> coord y x c < length (pixelData st) \<longrightarrow>
              pixelData st1 ! coord y x c =
                (if ?cl \<le> y \<and> y < ?cl + dotSize \<and> x = row \<and> c < 3
                 then pixel st ! c else pixelData st ! coord y x c)"
      by blast
    have s1: "pixel st1 = pixel st" "rowIterator st1 = rowIterator st" "columnIterator st1 = columnIterator st"
      by (subst st1(2), simp)+
    have step: "row_loop row st = row_loop (row + 1) st1"
      using True st1(1) by (subst row_loop.simps) simp
    have p1: "length (pixel st1) = 3" "rowIterator st1 * dotSize + dotSize \<le> 1920"
      "(columnIterator st1 * dotSize + dotSize) * 7680 \<le> length (pixelData st1)"
      using "1.prems" s1 st1(3) by simp_all
    from "1.IH"[OF True st1(1) p1]
    obtain st' where st': "row_loop (row + 1) st1 = Inr st'"
      "st' = st1\<lparr>pixelData := pixelData st'\<rparr>"
      "length (pixelData st') = length (pixelData st1)"
      "\<forall>y x c. x < 1920 \<longrightarrow> c < 4 \<longrightarrow> coord y x c < length (pixelData st1) \<longrightarrow>
              pixelData st' ! coord y x c =
                (if columnIterator st1 * dotSize \<le> y \<and> y < columnIterator st1 * dotSize + dotSize \<and>
                    row + 1 \<le> x \<and> x < rowIterator st1 * dotSize + dotSize \<and> c < 3
                 then pixel st1 ! c else pixelData st1 ! coord y x c)"
      by blast
    have fr: "st' = st\<lparr>pixelData := pixelData st'\<rparr>"
      by (subst st'(2), subst st1(2)) simp
    have px: "pixelData st' ! coord y x c =
                (if ?cl \<le> y \<and> y < ?cl + dotSize \<and> row \<le> x \<and> x < ?rb \<and> c < 3
                 then pixel st ! c else pixelData st ! coord y x c)"
      if b: "x < 1920" "c < 4" "coord y x c < length (pixelData st)" for y x c
    proof -
      have a: "pixelData st' ! coord y x c =
                (if ?cl \<le> y \<and> y < ?cl + dotSize \<and> row + 1 \<le> x \<and> x < ?rb \<and> c < 3
                 then pixel st ! c else pixelData st1 ! coord y x c)"
        using st'(4) b s1 st1(3) by simp
      have n: "pixelData st1 ! coord y x c =
                (if ?cl \<le> y \<and> y < ?cl + dotSize \<and> x = row \<and> c < 3
                 then pixel st ! c else pixelData st ! coord y x c)"
        using st1(4) b by simp
      show ?thesis using a n True by (auto simp: Suc_le_eq le_less)
    qed
    show ?thesis
      using step st'(1) fr st'(3) st1(3) px by auto
  qed
qed

lemma next_bit_wrap: "q mod 8 = 7 \<Longrightarrow> (q + 1) div 8 = q div 8 + 1 \<and> (q + 1) mod 8 = 0" for q :: nat
  by (simp add: mod_Suc div_Suc)

lemma next_bit_same: "q mod 8 \<noteq> 7 \<Longrightarrow> (q + 1) div 8 = q div 8 \<and> (q + 1) mod 8 = q mod 8 + 1" for q :: nat
  by (simp add: mod_Suc div_Suc)

lemma test_bit_mask: "(w AND push_bit n 1 \<noteq> 0) = bit w n" for w :: byte
  by (simp add: bit_iff_and_push_bit_not_eq_0)

lemma test_bit_power: "(w AND 2 ^ n = 0) = (\<not> bit w n)" for w :: byte
  using test_bit_mask[of w n] by (auto simp: push_bit_of_1)

lemma channel_loop_spec:
  assumes "currByte st = q div 8" "bitInByte st = 7 - q mod 8" "q < 8 * length frame"
    "length (pixel st) = 3" "j \<le> 3" "\<forall>c. j \<le> c \<and> c < 3 \<longrightarrow> pixel st ! c = 0"
  shows "\<exists>st'. channel_loop frame j st = Inr st' \<and>
      pixelData st' = pixelData st \<and> rowIterator st' = rowIterator st \<and>
      columnIterator st' = columnIterator st \<and> length (pixel st') = 3 \<and>
      (\<forall>c<3. pixel st' ! c =
         (if j \<le> c then (if payload_bit frame (q + (c - j)) then 0xff else 0) else pixel st ! c)) \<and>
      (if q + (3 - j) < 8 * length frame
       then iter_i st' = iter_i st \<and> currByte st' = (q + (3 - j)) div 8 \<and>
            bitInByte st' = 7 - (q + (3 - j)) mod 8
       else iter_i st' = 2147483647)"
  using assms
proof (induction "3 - j" arbitrary: j q st)
  case 0
  then have j: "j = 3" by simp
  have "channel_loop frame j st = Inr st" using j by (subst channel_loop.simps) simp
  with j "0.prems" show ?case by simp
next
  case (Suc n)
  then have j: "j < 3" by simp
  have cb: "currByte st < length frame" using Suc.prems(1,3) by simp
  define v :: byte where "v = (if payload_bit frame q then 0xff else 0)"
  have rd: "(if frame ! currByte st AND push_bit (bitInByte st) 1 \<noteq> 0 then 0xff else 0x00) = v"
    using Suc.prems(1,2,3) by (simp add: v_def payload_bit_def test_bit_power)
  define st1 where "st1 = st\<lparr>pixel := (pixel st)[j := v]\<rparr>"
  show ?case
  proof (cases "q mod 8 = 7")
    case True
    then have b0: "bitInByte st = 0" using Suc.prems(2) by simp
    note w = next_bit_wrap[OF True]
    show ?thesis
    proof (cases "q + 1 = 8 * length frame")
      case last: True
      then have "q div 8 + 1 = length frame" using w by (metis nonzero_mult_div_cancel_left zero_neq_numeral)
      then have "channel_loop frame j st = Inr (st1\<lparr>currByte := currByte st + 1, iter_i := 2147483647\<rparr>)"
        using j cb b0 rd Suc.prems(1)
        by (subst channel_loop.simps) (simp add: st1_def Let_def)
      moreover have "\<forall>c<3. ((pixel st)[j := v]) ! c =
         (if j \<le> c then (if payload_bit frame (q + (c - j)) then 0xff else 0) else pixel st ! c)"
      proof (intro allI impI)
        fix c :: nat assume c: "c < 3"
        show "((pixel st)[j := v]) ! c =
         (if j \<le> c then (if payload_bit frame (q + (c - j)) then 0xff else 0) else pixel st ! c)"
        proof (cases "c = j")
          case True
          then show ?thesis using Suc.prems(4) c by (simp add: v_def)
        next
          case False
          have "\<not> payload_bit frame (q + (c - j))" if "j < c"
          proof -
            from that last have "\<not> q + (c - j) < 8 * length frame" by linarith
            then show ?thesis unfolding payload_bit_def by blast
          qed
          with False Suc.prems(6) c show ?thesis by (auto simp: le_less)
        qed
      qed
      moreover have "\<not> q + (3 - j) < 8 * length frame" using last j by simp
      ultimately show ?thesis using Suc.prems(4) by (simp add: st1_def)
    next
      case notlast: False
      then have q1: "q + 1 < 8 * length frame" using Suc.prems(3) by simp
      then have "q div 8 + 1 \<noteq> length frame" using w
        by (metis less_irrefl mult.commute div_mult_mod_eq add.right_neutral)
      define st2 where "st2 = st1\<lparr>currByte := currByte st + 1, bitInByte := 7\<rparr>"
      have step: "channel_loop frame j st = channel_loop frame (j + 1) st2"
        using j cb b0 rd Suc.prems(1) \<open>q div 8 + 1 \<noteq> length frame\<close>
        by (subst channel_loop.simps) (simp add: st1_def st2_def Let_def)
      have pre: "currByte st2 = (q + 1) div 8" "bitInByte st2 = 7 - (q + 1) mod 8"
        "length (pixel st2) = 3" "j + 1 \<le> 3"
        "\<forall>c. j + 1 \<le> c \<and> c < 3 \<longrightarrow> pixel st2 ! c = 0"
        using w Suc.prems(1,4,6) j by (simp_all add: st2_def st1_def)
      have n: "n = 3 - (j + 1)" using Suc.hyps(2) by simp
      from Suc.hyps(1)[OF n pre(1,2) q1 pre(3,4,5)]
      obtain st' where st': "channel_loop frame (j + 1) st2 = Inr st'"
        "pixelData st' = pixelData st2" "rowIterator st' = rowIterator st2"
        "columnIterator st' = columnIterator st2" "length (pixel st') = 3"
        "\<forall>c<3. pixel st' ! c =
          (if j + 1 \<le> c then (if payload_bit frame (q + 1 + (c - (j + 1))) then 0xff else 0)
           else pixel st2 ! c)"
        "if q + 1 + (3 - (j + 1)) < 8 * length frame
         then iter_i st' = iter_i st2 \<and> currByte st' = (q + 1 + (3 - (j + 1))) div 8 \<and>
              bitInByte st' = 7 - (q + 1 + (3 - (j + 1))) mod 8
         else iter_i st' = 2147483647"
        by blast
      have e: "q + 1 + (3 - (j + 1)) = q + (3 - j)" using j by simp
      have px: "\<forall>c<3. pixel st' ! c =
         (if j \<le> c then (if payload_bit frame (q + (c - j)) then 0xff else 0) else pixel st ! c)"
      proof (intro allI impI)
        fix c :: nat assume c: "c < 3"
        show "pixel st' ! c =
         (if j \<le> c then (if payload_bit frame (q + (c - j)) then 0xff else 0) else pixel st ! c)"
        proof (cases "j + 1 \<le> c")
          case True
          then have "q + 1 + (c - (j + 1)) = q + (c - j)" by simp
          with st'(6) c True show ?thesis by simp
        next
          case False
          then have "pixel st' ! c = ((pixel st)[j := v]) ! c"
            using st'(6) c by (simp add: st2_def st1_def)
          then show ?thesis using False Suc.prems(4) c
            by (cases "c = j") (auto simp: v_def)
        qed
      qed
      show ?thesis
        using step st' px unfolding e by (simp add: st2_def st1_def)
    qed
  next
    case False
    then have b0: "bitInByte st \<noteq> 0" using Suc.prems(2) by simp
    note w = next_bit_same[OF False]
    have q1: "q + 1 < 8 * length frame"
    proof -
      have "q div 8 < length frame" using Suc.prems(3) by simp
      then have "8 * (q div 8) + 8 \<le> 8 * length frame" by simp
      moreover have "q = 8 * (q div 8) + q mod 8" by simp
      moreover have "q mod 8 < 8" by simp
      with False have "q mod 8 < 7" by linarith
      ultimately show ?thesis using \<open>q mod 8 < 7\<close> by linarith
    qed
    define st2 where "st2 = st1\<lparr>bitInByte := bitInByte st - 1\<rparr>"
    have step: "channel_loop frame j st = channel_loop frame (j + 1) st2"
      using j cb b0 rd
      by (subst channel_loop.simps) (simp add: st1_def st2_def Let_def)
    have "7 - q mod 8 - 1 = 7 - (q mod 8 + 1)" by simp
    then have pre: "currByte st2 = (q + 1) div 8" "bitInByte st2 = 7 - (q + 1) mod 8"
        "length (pixel st2) = 3" "j + 1 \<le> 3"
        "\<forall>c. j + 1 \<le> c \<and> c < 3 \<longrightarrow> pixel st2 ! c = 0"
      using w Suc.prems(1,2,4,6) j by (simp_all add: st2_def st1_def)
    have n: "n = 3 - (j + 1)" using Suc.hyps(2) by simp
    from Suc.hyps(1)[OF n pre(1,2) q1 pre(3,4,5)]
    obtain st' where st': "channel_loop frame (j + 1) st2 = Inr st'"
        "pixelData st' = pixelData st2" "rowIterator st' = rowIterator st2"
        "columnIterator st' = columnIterator st2" "length (pixel st') = 3"
        "\<forall>c<3. pixel st' ! c =
          (if j + 1 \<le> c then (if payload_bit frame (q + 1 + (c - (j + 1))) then 0xff else 0)
           else pixel st2 ! c)"
        "if q + 1 + (3 - (j + 1)) < 8 * length frame
         then iter_i st' = iter_i st2 \<and> currByte st' = (q + 1 + (3 - (j + 1))) div 8 \<and>
              bitInByte st' = 7 - (q + 1 + (3 - (j + 1))) mod 8
         else iter_i st' = 2147483647"
      by blast
    have e: "q + 1 + (3 - (j + 1)) = q + (3 - j)" using j by simp
    have px: "\<forall>c<3. pixel st' ! c =
         (if j \<le> c then (if payload_bit frame (q + (c - j)) then 0xff else 0) else pixel st ! c)"
    proof (intro allI impI)
      fix c :: nat assume c: "c < 3"
      show "pixel st' ! c =
         (if j \<le> c then (if payload_bit frame (q + (c - j)) then 0xff else 0) else pixel st ! c)"
      proof (cases "j + 1 \<le> c")
        case True
        then have "q + 1 + (c - (j + 1)) = q + (c - j)" by simp
        with st'(6) c True show ?thesis by simp
      next
        case False
        then have "pixel st' ! c = ((pixel st)[j := v]) ! c"
          using st'(6) c by (simp add: st2_def st1_def)
        then show ?thesis using False Suc.prems(4) c
          by (cases "c = j") (auto simp: v_def)
      qed
    qed
    show ?thesis
      using step st' px unfolding e by (simp add: st2_def st1_def)
  qed
qed

lemma width_eq: "width = 240"
  by (simp add: width_def frameWidth_def dotSize_def)

lemma height_eq: "height = 135"
  by (simp add: height_def frameHeight_def dotSize_def)

lemma div8_eq_iff: "(y div 8 = a) \<longleftrightarrow> (a * 8 \<le> y \<and> y < a * 8 + 8)" for y a :: nat
proof
  assume "y div 8 = a"
  then show "a * 8 \<le> y \<and> y < a * 8 + 8"
    using div_times_less_eq_dividend[of y 8] dividend_less_div_times[of 8 y] by auto
next
  assume "a * 8 \<le> y \<and> y < a * 8 + 8"
  then show "y div 8 = a" by (intro div_nat_eqI) (simp_all add: mult.commute)
qed

lemma block_iff:
  assumes "x < 1920" "ri < 240"
  shows "(ci * 8 \<le> y \<and> y < ci * 8 + 8 \<and> ri * 8 \<le> x \<and> x < ri * 8 + 8) \<longleftrightarrow>
         dot_of y x = ci * 240 + ri"
proof -
  have xb: "x div 8 < 240" using assms(1) by simp
  have "(y div 8 * 240 + x div 8 = ci * 240 + ri) \<longleftrightarrow> (y div 8 = ci \<and> x div 8 = ri)"
  proof
    assume e: "y div 8 * 240 + x div 8 = ci * 240 + ri"
    have "(y div 8 * 240 + x div 8) div 240 = y div 8" using xb by simp
    moreover have "(ci * 240 + ri) div 240 = ci" using assms(2) by simp
    ultimately have "y div 8 = ci" using e by simp
    with e show "y div 8 = ci \<and> x div 8 = ri" by simp
  qed simp
  then show ?thesis
    by (simp add: dot_of_def dotSize_def width_eq div8_eq_iff[symmetric] conj_assoc[symmetric])
qed

lemma coord_bound: "y < 1080 \<Longrightarrow> x < 1920 \<Longrightarrow> c < 4 \<Longrightarrow> coord y x c < 8294400"
proof -
  assume a: "y < 1080" "x < 1920" "c < 4"
  then have "y * 7680 \<le> 1079 * 7680" by (intro mult_le_mono1) simp
  with a show ?thesis by (simp add: coord_def)
qed

lemma serializer_loop_spec:
  assumes "serializer_inv frame d st" "length frame \<le> 12150"
  shows "\<exists>st'. serializer_loop frame st = Inr st' \<and> length (pixelData st') = 8294400 \<and>
           (\<forall>y x c. y < 1080 \<longrightarrow> x < 1920 \<longrightarrow> c < 4 \<longrightarrow>
              pixelData st' ! coord y x c = pack_pixel frame y x c)"
  using assms(1)
proof (induction "8 * length frame - 3 * d" arbitrary: d st rule: less_induct)
  case less
  note I = less.prems[unfolded serializer_inv_def]
  have i1: "iter_i st = 4 * d" and i2: "rowIterator st = d mod 240"
    and i3: "columnIterator st = d div 240" and i4: "currByte st = (3 * d) div 8"
    and i5: "bitInByte st = 7 - (3 * d) mod 8" and i6: "length (pixel st) = 3"
    and i7: "length (pixelData st) = 8294400" and i8: "3 * d < 8 * length frame"
    and i9: "\<forall>y x c. y < 1080 \<longrightarrow> x < 1920 \<longrightarrow> c < 4 \<longrightarrow>
        pixelData st ! coord y x c = (if dot_of y x < d then pack_pixel frame y x c else 0)"
    using I by simp_all
  have d: "d < 32400" using i8 assms(2) by simp
  have lt: "iter_i st < length (pixelData st)" using i1 i7 d by simp
  define st1 where "st1 = st\<lparr>pixel := (pixel st)[0 := 0, 1 := 0, 2 := 0]\<rparr>"
  have z: "\<forall>c. 0 \<le> c \<and> c < 3 \<longrightarrow> pixel st1 ! c = 0"
  proof (intro allI impI)
    fix c :: nat assume "0 \<le> c \<and> c < 3"
    then have "c = 0 \<or> c = 1 \<or> c = 2" by auto
    then show "pixel st1 ! c = 0" using i6 by (auto simp: st1_def nth_list_update)
  qed
  have p1: "currByte st1 = (3 * d) div 8" "bitInByte st1 = 7 - (3 * d) mod 8" "length (pixel st1) = 3"
    using i4 i5 i6 by (simp_all add: st1_def)
  from channel_loop_spec[OF p1(1,2) i8 p1(3) _ z]
  obtain st2 where st2: "channel_loop frame 0 st1 = Inr st2"
    "pixelData st2 = pixelData st1" "rowIterator st2 = rowIterator st1"
    "columnIterator st2 = columnIterator st1" "length (pixel st2) = 3"
    "\<forall>c<3. pixel st2 ! c = (if payload_bit frame (3 * d + c) then 0xff else 0)"
    "if 3 * d + 3 < 8 * length frame
       then iter_i st2 = iter_i st1 \<and> currByte st2 = (3 * d + 3) div 8 \<and>
            bitInByte st2 = 7 - (3 * d + 3) mod 8
       else iter_i st2 = 2147483647"
    by auto
  have ri: "rowIterator st2 = d mod 240" and ci: "columnIterator st2 = d div 240"
    and pd2: "pixelData st2 = pixelData st"
    using st2(2,3,4) i2 i3 by (simp_all add: st1_def)
  have rib: "d mod 240 < 240" by simp
  have cib: "d div 240 < 135" using d by simp
  have rp1: "rowIterator st2 * dotSize + dotSize \<le> 1920"
    using rib by (simp add: ri dotSize_def)
  have "(d div 240 * 8 + 8) * 7680 \<le> 135 * 8 * 7680"
    using cib by (intro mult_le_mono1) simp
  then have rp2: "(columnIterator st2 * dotSize + dotSize) * 7680 \<le> length (pixelData st2)"
    by (simp add: ci dotSize_def pd2 i7)
  from row_loop_spec[OF st2(5) rp1 rp2, of "rowIterator st2 * dotSize"]
  obtain st3 where st3: "row_loop (rowIterator st2 * dotSize) st2 = Inr st3"
    "st3 = st2\<lparr>pixelData := pixelData st3\<rparr>"
    "length (pixelData st3) = length (pixelData st2)"
    "\<forall>y x c. x < 1920 \<longrightarrow> c < 4 \<longrightarrow> coord y x c < length (pixelData st2) \<longrightarrow>
              pixelData st3 ! coord y x c =
                (if columnIterator st2 * dotSize \<le> y \<and> y < columnIterator st2 * dotSize + dotSize \<and>
                    rowIterator st2 * dotSize \<le> x \<and> x < rowIterator st2 * dotSize + dotSize \<and> c < 3
                 then pixel st2 ! c else pixelData st2 ! coord y x c)"
    by blast
  have s3: "rowIterator st3 = d mod 240" "columnIterator st3 = d div 240"
    "iter_i st3 = iter_i st2" "currByte st3 = currByte st2" "bitInByte st3 = bitInByte st2"
    "pixel st3 = pixel st2"
    using ri ci by (subst st3(2), simp)+
  have len3: "length (pixelData st3) = 8294400" using st3(3) pd2 i7 by simp
  have dd: "d div 240 * 240 + d mod 240 = d" by simp
  have px3: "pixelData st3 ! coord y x c = (if dot_of y x < d + 1 then pack_pixel frame y x c else 0)"
    if b: "y < 1080" "x < 1920" "c < 4" for y x c
  proof -
    have cb: "coord y x c < length (pixelData st2)"
      using coord_bound[OF b] pd2 i7 by simp
    have blk: "(d div 240 * 8 \<le> y \<and> y < d div 240 * 8 + 8 \<and> d mod 240 * 8 \<le> x \<and> x < d mod 240 * 8 + 8)
               \<longleftrightarrow> dot_of y x = d"
      using block_iff[OF b(2) rib, of "d div 240" y] dd by simp
    have blk3: "(d div 240 * 8 \<le> y \<and> y < d div 240 * 8 + 8 \<and> d mod 240 * 8 \<le> x \<and>
                 x < d mod 240 * 8 + 8 \<and> c < 3) \<longleftrightarrow> (dot_of y x = d \<and> c < 3)"
      using blk by blast
    have "pixelData st3 ! coord y x c =
                (if d div 240 * 8 \<le> y \<and> y < d div 240 * 8 + 8 \<and> d mod 240 * 8 \<le> x \<and>
                    x < d mod 240 * 8 + 8 \<and> c < 3
                 then pixel st2 ! c else pixelData st ! coord y x c)"
      using st3(4)[rule_format, OF b(2,3) cb] by (simp add: ri ci dotSize_def pd2)
    then have a: "pixelData st3 ! coord y x c =
                (if dot_of y x = d \<and> c < 3
                 then pixel st2 ! c else pixelData st ! coord y x c)"
      unfolding blk3 .
    have old: "pixelData st ! coord y x c = (if dot_of y x < d then pack_pixel frame y x c else 0)"
      using i9 b by simp
    show ?thesis
    proof (cases "dot_of y x = d")
      case True
      show ?thesis
      proof (cases "c < 3")
        case c3: True
        then show ?thesis using a True st2(6) by (simp add: pack_pixel_def)
      next
        case False
        then show ?thesis using a True old by (simp add: pack_pixel_def)
      qed
    next
      case False
      then show ?thesis using a old by (auto simp: less_Suc_eq)
    qed
  qed
  define st4 where "st4 = st3\<lparr>rowIterator := rowIterator st3 + 1\<rparr>"
  define st5 where "st5 = (if rowIterator st4 = width
                              then st4\<lparr>rowIterator := 0, columnIterator := columnIterator st4 + 1\<rparr>
                              else st4)"
  define st6 where "st6 = st5\<lparr>iter_i := iter_i st5 + 4\<rparr>"
  have step: "serializer_loop frame st = serializer_loop frame st6"
    by (subst serializer_loop.simps)
       (simp only: lt if_True st1_def[symmetric] st2(1) st3(1) sum.case Let_def
          st4_def[symmetric] st5_def[symmetric] st6_def[symmetric])
  have s6: "rowIterator st6 = (d + 1) mod 240" "columnIterator st6 = (d + 1) div 240"
    "iter_i st6 = iter_i st2 + 4" "currByte st6 = currByte st2" "bitInByte st6 = bitInByte st2"
    "pixel st6 = pixel st2" "pixelData st6 = pixelData st3"
    using s3 by (auto simp: st6_def st5_def st4_def width_eq mod_Suc div_Suc)
  show ?case
  proof (cases "3 * d + 3 < 8 * length frame")
    case True
    with st2(7) have c2: "iter_i st2 = iter_i st1" "currByte st2 = (3 * d + 3) div 8"
      "bitInByte st2 = 7 - (3 * d + 3) mod 8" by simp_all
    have inv: "serializer_inv frame (d + 1) st6"
      unfolding serializer_inv_def
      using s6 c2 i1 st2(5) len3 True px3 by (simp add: st1_def algebra_simps)
    have "8 * length frame - 3 * (d + 1) < 8 * length frame - 3 * d" using True by simp
    from less.hyps[OF this inv] step show ?thesis by simp
  next
    case False
    with st2(7) have "iter_i st2 = 2147483647" by simp
    then have "\<not> iter_i st6 < length (pixelData st6)" using s6 len3 by simp
    then have fin: "serializer_loop frame st6 = Inr st6"
      by (subst serializer_loop.simps) simp
    have "pixelData st6 ! coord y x c = pack_pixel frame y x c"
      if b: "y < 1080" "x < 1920" "c < 4" for y x c
    proof (cases "dot_of y x < d + 1")
      case True
      then show ?thesis using px3[OF b] s6(7) by simp
    next
      case nd: False
      then have "\<not> 3 * dot_of y x + c < 8 * length frame" using False by simp
      then have "pack_pixel frame y x c = 0" by (simp add: pack_pixel_def payload_bit_def)
      then show ?thesis using px3[OF b] s6(7) nd by simp
    qed
    then show ?thesis using step fin s6(7) len3 by simp
  qed
qed

lemma serializer_inv_init:
  assumes "0 < length frame"
  shows "serializer_inv frame 0 serializer_init"
proof -
  have "replicate 8294400 (0::byte) ! coord y x c = 0" if "y < 1080" "x < 1920" "c < 4" for y x c
    using coord_bound[OF that] by simp
  then show ?thesis
    using assms
    by (simp add: serializer_inv_def serializer_init_def width_eq height_eq dotSize_def)
qed

section \<open>The Frame Unpacker reads one pixel of each block\<close>

lemma bit_one_hot: "k < 8 \<Longrightarrow> i < 8 \<Longrightarrow> bit (2 ^ k :: byte) i \<longleftrightarrow> i = k"
  by (auto simp: bit_exp_iff possible_bit_word)

lemma same_byte_bit: "m div 8 = n div 8 \<Longrightarrow> (7 - m mod 8 = 7 - n mod 8) \<longleftrightarrow> m = n" for m n :: nat
proof -
  assume a: "m div 8 = n div 8"
  have "m mod 8 < 8" "n mod 8 < 8" by simp_all
  then have "(7 - m mod 8 = 7 - n mod 8) \<longleftrightarrow> m mod 8 = n mod 8" by linarith
  also have "\<dots> \<longleftrightarrow> m = n" using a by (metis div_mult_mod_eq)
  finally show ?thesis .
qed

lemma digest_bit_step:
  assumes "digester_inv src n st" "n < 97200" "bit b 7 \<longleftrightarrow> src n"
  shows "\<exists>st'. digest_bit b st = Inr st' \<and> digester_inv src (n + 1) st'"
proof -
  have I: "currByteD st = n div 8" "bitInByteD st = 7 - int (n mod 8)"
    "length (processedBytes st) = 12150"
    "\<forall>m<97200. payload_bit (processedBytes st) m \<longleftrightarrow> m < n \<and> src m"
    using assms(1) by (simp_all add: digester_inv_def)
  have cb: "currByteD st < length (processedBytes st)" using I(1,3) assms(2) by simp
  have hb: "(b AND 0x80 \<noteq> 0) = bit b 7"
    using test_bit_mask[of b 7] by simp
  have sh: "nat (bitInByteD st) = 7 - n mod 8" using I(2) by simp
  define pb where "pb = (if bit b 7
      then (processedBytes st)[n div 8 := processedBytes st ! (n div 8) OR push_bit (7 - n mod 8) 1]
      else processedBytes st)"
  define st1 where "st1 = st\<lparr>processedBytes := pb\<rparr>"
  define st' where "st' = (if n mod 8 = 7
      then st1\<lparr>bitInByteD := bitInByteD st - 1, currByteD := currByteD st + 1, bitInByteD := 7\<rparr>
      else st1\<lparr>bitInByteD := bitInByteD st - 1\<rparr>)"
  have m1: "(bitInByteD st - 1 = - 1) \<longleftrightarrow> n mod 8 = 7" using I(2) by auto
  have res: "digest_bit b st = Inr st'"
    unfolding digest_bit_def hb using cb m1
    by (auto simp: st'_def st1_def pb_def I(1) sh Let_def)
  have len: "length pb = 12150" using I(3) by (simp add: pb_def)
  have bits: "payload_bit pb m \<longleftrightarrow> m < n + 1 \<and> src m" if m: "m < 97200" for m
  proof -
    have old: "payload_bit (processedBytes st) m \<longleftrightarrow> m < n \<and> src m" using I(4) m by simp
    have ml: "m < 8 * length pb" "m < 8 * length (processedBytes st)" using m len I(3) by simp_all
    show ?thesis
    proof (cases "bit b 7")
      case False
      then have "pb = processedBytes st" by (simp add: pb_def)
      with old False assms(3) show ?thesis by (auto simp: less_Suc_eq)
    next
      case True
      show ?thesis
      proof (cases "m div 8 = n div 8")
        case same: True
        have "pb ! (m div 8) = processedBytes st ! (n div 8) OR push_bit (7 - n mod 8) 1"
          using True same cb I(1) by (simp add: pb_def)
        then have "bit (pb ! (m div 8)) (7 - m mod 8) \<longleftrightarrow>
            bit (processedBytes st ! (m div 8)) (7 - m mod 8) \<or> m = n"
          using same same_byte_bit[OF same] by (simp add: bit_or_iff bit_one_hot)
        then have "payload_bit pb m \<longleftrightarrow> payload_bit (processedBytes st) m \<or> m = n"
          using ml by (simp add: payload_bit_def)
        with old True assms(3) show ?thesis by (auto simp: less_Suc_eq)
      next
        case diff: False
        then have "pb ! (m div 8) = processedBytes st ! (m div 8)"
          using True by (simp add: pb_def)
        then have "payload_bit pb m \<longleftrightarrow> payload_bit (processedBytes st) m"
          using ml by (simp add: payload_bit_def)
        moreover have "m \<noteq> n" using diff by auto
        ultimately show ?thesis using old by (auto simp: less_Suc_eq)
      qed
    qed
  qed
  have "digester_inv src (n + 1) st'"
  proof (cases "n mod 8 = 7")
    case True
    then show ?thesis unfolding digester_inv_def
      using bits len I(1) next_bit_wrap[OF True] by (simp add: st'_def st1_def)
  next
    case False
    have "n mod 8 < 8" by simp
    with False have "n mod 8 < 7" by linarith
    then have "7 - int (n mod 8) - 1 = 7 - int (n mod 8 + 1)" by simp
    then show ?thesis unfolding digester_inv_def
      using bits len I(1,2) next_bit_same[OF False] False by (simp add: st'_def st1_def)
  qed
  with res show ?thesis by blast
qed

lemma digest_bits3:
  assumes "digester_inv src n st" "n + 3 \<le> 97200"
    "bit b0 7 \<longleftrightarrow> src n" "bit b1 7 \<longleftrightarrow> src (n + 1)" "bit b2 7 \<longleftrightarrow> src (n + 2)"
  shows "\<exists>st'. digest_bits [b0, b1, b2] st = Inr st' \<and> digester_inv src (n + 3) st'"
proof -
  from digest_bit_step[OF assms(1) _ assms(3)] assms(2)
  obtain s1 where s1: "digest_bit b0 st = Inr s1" "digester_inv src (n + 1) s1" by auto
  from digest_bit_step[OF s1(2) _ assms(4)] assms(2)
  obtain s2 where s2: "digest_bit b1 s1 = Inr s2" "digester_inv src (n + 1 + 1) s2" by auto
  have "bit b2 7 \<longleftrightarrow> src (n + 1 + 1)" using assms(5) by (simp add: add.assoc)
  from digest_bit_step[OF s2(2) _ this] assms(2)
  obtain s3 where s3: "digest_bit b2 s2 = Inr s3" "digester_inv src (n + 1 + 1 + 1) s3" by auto
  have e: "n + 1 + 1 + 1 = n + 3" by simp
  from s3(2) have "digester_inv src (n + 3) s3" unfolding e .
  with s1(1) s2(1) s3(1) show ?thesis by simp
qed

lemma take3_drop:
  assumes "pc + 3 \<le> length bytes"
  shows "take 3 (drop pc bytes) = [bytes ! pc, bytes ! (pc + 1), bytes ! (pc + 2)]"
proof -
  have "length (take 3 (drop pc bytes)) = 3" using assms by simp
  moreover have "take 3 (drop pc bytes) ! k = bytes ! (pc + k)" if "k < 3" for k
    using that assms by simp
  ultimately show ?thesis
    by (intro nth_equalityI) (auto simp: less_Suc_eq numeral_3_eq_3)
qed

lemma sample_bit_dot:
  assumes "t < 240" "c < 3"
  shows "sample_bit bytes (3 * (l * 240 + t) + c) \<longleftrightarrow>
         bit (bytes ! ((8 * l + 3) * 5760 + (24 * t + 9) + c)) 7"
proof -
  have g: "(3 * k + c) div 3 = k" "(3 * k + c) mod 3 = c" for k
    using assms(2) by simp_all
  have a: "(3 * (l * 240 + t) + c) div 3 = l * 240 + t" "(3 * (l * 240 + t) + c) mod 3 = c"
    using g[of "l * 240 + t"] by blast+
  have b: "(l * 240 + t) div 240 = l" "(l * 240 + t) mod 240 = t"
    using assms(1) by simp_all
  show ?thesis
    unfolding sample_bit_def sample_pos_def width_eq dotSize_def a b rgb_coord_def
    by (simp add: algebra_simps)
qed

lemma pixel_loop_spec:
  assumes "length bytes = 6220800" "l < 135" "t \<le> 240"
    "digester_inv (sample_bit bytes) (3 * (l * 240 + t)) st"
  shows "\<exists>st'. pixel_loop bytes (8 * l + 3) (24 * t + 9) st = Inr st' \<and>
               digester_inv (sample_bit bytes) (3 * (l * 240 + 240)) st'"
  using assms(3,4)
proof (induction "240 - t" arbitrary: t st)
  case 0
  then have t: "t = 240" by simp
  have "pixel_loop bytes (8 * l + 3) (24 * t + 9) st = Inr st"
    using t by (subst pixel_loop.simps) simp
  with "0.prems"(2) t show ?case by simp
next
  case (Suc k)
  then have t: "t < 240" by simp
  let ?pc = "(8 * l + 3) * 5760 + (24 * t + 9)"
  have "(8 * l + 3) * 5760 \<le> (8 * 134 + 3) * 5760"
    using assms(2) by (intro mult_le_mono1) simp
  then have inb: "?pc + 3 \<le> length bytes" using t assms(1) by simp
  have d: "l * 240 + t < 32400" using assms(2) t by simp
  have n3: "3 * (l * 240 + t) + 3 \<le> 97200" using d by simp
  have sb: "bit (bytes ! ?pc) 7 \<longleftrightarrow> sample_bit bytes (3 * (l * 240 + t))"
    "bit (bytes ! (?pc + 1)) 7 \<longleftrightarrow> sample_bit bytes (3 * (l * 240 + t) + 1)"
    "bit (bytes ! (?pc + 2)) 7 \<longleftrightarrow> sample_bit bytes (3 * (l * 240 + t) + 2)"
    using sample_bit_dot[OF t, of 0 bytes l] sample_bit_dot[OF t, of 1 bytes l]
      sample_bit_dot[OF t, of 2 bytes l] by simp_all
  from digest_bits3[OF Suc.prems(2) n3 sb]
  obtain s1 where s1: "digest_bits [bytes ! ?pc, bytes ! (?pc + 1), bytes ! (?pc + 2)] st = Inr s1"
    "digester_inv (sample_bit bytes) (3 * (l * 240 + t) + 3) s1" by blast
  have step: "pixel_loop bytes (8 * l + 3) (24 * t + 9) st =
              pixel_loop bytes (8 * l + 3) (24 * (t + 1) + 9) s1"
    using t inb s1(1) take3_drop[OF inb]
    by (subst pixel_loop.simps) (simp add: Let_def)
  have k: "k = 240 - (t + 1)" using Suc.hyps(2) by simp
  have e: "3 * (l * 240 + t) + 3 = 3 * (l * 240 + (t + 1))" by simp
  from s1(2) have i1: "digester_inv (sample_bit bytes) (3 * (l * 240 + (t + 1))) s1"
    unfolding e .
  from Suc.hyps(1)[OF k _ i1] t step show ?case by simp
qed

lemma line_loop_spec:
  assumes "length bytes = 6220800" "l \<le> 135"
    "digester_inv (sample_bit bytes) (3 * (l * 240)) st"
  shows "\<exists>st'. line_loop bytes (8 * l + 3) st = Inr st' \<and>
               digester_inv (sample_bit bytes) 97200 st'"
  using assms(2,3)
proof (induction "135 - l" arbitrary: l st)
  case 0
  then have l: "l = 135" by simp
  have "line_loop bytes (8 * l + 3) st = Inr st"
    using l by (subst line_loop.simps) simp
  with "0.prems"(2) l show ?case by simp
next
  case (Suc k)
  then have l: "l < 135" by simp
  have i0: "digester_inv (sample_bit bytes) (3 * (l * 240 + 0)) st" using Suc.prems(2) by simp
  from pixel_loop_spec[OF assms(1) l _ i0]
  obtain s1 where s1: "pixel_loop bytes (8 * l + 3) 9 st = Inr s1"
    "digester_inv (sample_bit bytes) (3 * (l * 240 + 240)) s1" by auto
  have step: "line_loop bytes (8 * l + 3) st = line_loop bytes (8 * (l + 1) + 3) s1"
    using l s1(1) by (subst line_loop.simps) simp
  have k: "k = 135 - (l + 1)" using Suc.hyps(2) by simp
  have e: "3 * (l * 240 + 240) = 3 * ((l + 1) * 240)" by simp
  from s1(2) have i1: "digester_inv (sample_bit bytes) (3 * ((l + 1) * 240)) s1"
    unfolding e .
  from Suc.hyps(1)[OF k _ i1] l step show ?case by simp
qed

lemma digest_spec:
  assumes "length bytes = rawBytesPerFrame"
  shows "\<exists>out. digest bytes = Inr out \<and> length out = processedBytesPerFrame \<and>
           (\<forall>n < 8 * processedBytesPerFrame. payload_bit out n \<longleftrightarrow> sample_bit bytes n)"
proof -
  have "digester_inv (sample_bit bytes) (3 * (0 * 240)) digester_init"
    by (simp add: digester_inv_def digester_init_def processedBytesPerFrame_eq payload_bit_def)
  from line_loop_spec[OF assms[unfolded rawBytesPerFrame_eq] _ this]
  obtain st' where "line_loop bytes 3 digester_init = Inr st'"
    "digester_inv (sample_bit bytes) 97200 st'" by auto
  then show ?thesis
    by (simp add: digest_def digester_inv_def processedBytesPerFrame_eq)
qed

lemma bytes_eq_by_bits:
  assumes "length u = length v" "\<forall>n < 8 * length u. payload_bit u n \<longleftrightarrow> payload_bit v n"
  shows "u = v"
proof (rule nth_equalityI[OF assms(1)])
  fix i assume i: "i < length u"
  show "u ! i = v ! i"
  proof (rule bit_word_eqI)
    fix k assume "k < LENGTH(8)"
    then have k: "k < 8" by simp
    define j where "j = 7 - k"
    have j: "j < 8" "7 - j = k" using k by (simp_all add: j_def)
    define n where "n = 8 * i + j"
    have "n div 8 = i" "n mod 8 = j" "n < 8 * length u"
      using j(1) i by (simp_all add: n_def)
    with j(2) have n: "n div 8 = i" "7 - n mod 8 = k" "n < 8 * length u" by simp_all
    from assms(2) n(3) have "payload_bit u n \<longleftrightarrow> payload_bit v n" by simp
    then show "bit (u ! i) k \<longleftrightarrow> bit (v ! i) k"
      using n assms(1) by (simp add: payload_bit_def)
  qed
qed

lemma sample_pos_bound:
  assumes "n < 97200"
  shows "sample_pos n < 6220800"
proof -
  have "n div 3 < 32400" using assms by simp
  then have "n div 3 div 240 < 135" by simp
  then have "(8 * (n div 3 div 240) + 3) * 5760 \<le> (8 * 134 + 3) * 5760"
    by (intro mult_le_mono1) simp
  moreover have "n div 3 mod 240 < 240" "n mod 3 < 3" by simp_all
  ultimately show ?thesis
    by (simp add: sample_pos_def rgb_coord_def dotSize_def width_eq)
qed

section \<open>From the file to the frames the Ordered Writer receives\<close>

text \<open>
  Unpacking the bitmap of a segment gives the padded segment back; the Ordered Emitter
  writes the bitmaps in index order whatever the arrival order; so encoding a file and
  decoding the video hands the Ordered Writer the padded segments of the file, in the
  arrival order of the decoding side.
\<close>

lemma length_rgba_to_rgb24:
  "length px = 8294400 \<Longrightarrow> length (rgba_to_rgb24 px) = 6220800"
  by (simp add: rgba_to_rgb24_def)

lemma rgba_to_rgb24_sample:
  assumes "length px = 8294400" "n < 97200"
  shows "rgba_to_rgb24 px ! sample_pos n =
         px ! coord (8 * (n div 3 div 240) + 3) (8 * (n div 3 mod 240) + 3) (n mod 3)"
proof -
  define Y where "Y = 8 * (n div 3 div 240) + 3"
  define X where "X = 8 * (n div 3 mod 240) + 3"
  define c where "c = n mod 3"
  have sp: "sample_pos n = 3 * (Y * 1920 + X) + c"
    by (simp add: sample_pos_def rgb_coord_def dotSize_def width_eq Y_def X_def c_def)
  have c: "c < 3" by (simp add: c_def)
  have g: "(3 * k + c) div 3 = k" "(3 * k + c) mod 3 = c" for k
    using c by simp_all
  have b: "sample_pos n < 6220800" using sample_pos_bound[OF assms(2)] .
  have "rgba_to_rgb24 px ! sample_pos n = px ! (4 * (sample_pos n div 3) + sample_pos n mod 3)"
    using b assms(1) by (simp add: rgba_to_rgb24_def)
  also have "sample_pos n div 3 = Y * 1920 + X" using g(1)[of "Y * 1920 + X"] unfolding sp .
  also have "sample_pos n mod 3 = c" using g(2)[of "Y * 1920 + X"] unfolding sp .
  also have "4 * (Y * 1920 + X) + c = coord Y X c" by (simp add: coord_def)
  finally show ?thesis unfolding Y_def X_def c_def .
qed

lemma dot_of_sample:
  "dot_of (8 * (d div 240) + 3) (8 * (d mod 240) + 3) = d"
proof -
  have "(8 * (d div 240) + 3) div 8 = d div 240" "(8 * (d mod 240) + 3) div 8 = d mod 240"
    by simp_all
  then show ?thesis by (simp add: dot_of_def dotSize_def width_eq)
qed

lemma bit7_channel: "bit (if b then 0xff else 0 :: byte) 7 \<longleftrightarrow> b"
  by simp

lemma payload_bit_pad:
  assumes "length frame \<le> 12150" "n < 97200"
  shows "payload_bit (pad_frame frame) n \<longleftrightarrow> payload_bit frame n"
proof (cases "n < 8 * length frame")
  case True
  then have "n div 8 < length frame" by simp
  then show ?thesis using True assms
    by (simp add: payload_bit_def pad_frame_def nth_append processedBytesPerFrame_eq)
next
  case False
  then have "\<not> n div 8 < length frame" by simp
  moreover have "n div 8 < 12150" using assms(2) by simp
  ultimately show ?thesis using False assms(1)
    by (simp add: payload_bit_def pad_frame_def nth_append processedBytesPerFrame_eq)
qed

lemma unpack_pack:
  assumes "0 < length frame" "length frame \<le> processedBytesPerFrame"
  shows "\<exists>pd. serializer frame = Inr pd \<and> length pd = 8294400 \<and>
              digest (rgba_to_rgb24 pd) = Inr (pad_frame frame)"
proof -
  note le = assms(2)[unfolded processedBytesPerFrame_eq]
  from serializer_loop_spec[OF serializer_inv_init[OF assms(1)] le]
  obtain st' where st': "serializer_loop frame serializer_init = Inr st'"
    "length (pixelData st') = 8294400"
    "\<forall>y x c. y < 1080 \<longrightarrow> x < 1920 \<longrightarrow> c < 4 \<longrightarrow>
              pixelData st' ! coord y x c = pack_pixel frame y x c" by blast
  define pd where "pd = pixelData st'"
  have ser: "serializer frame = Inr pd" using st'(1) by (simp add: serializer_def pd_def)
  have len: "length pd = 8294400" using st'(2) by (simp add: pd_def)
  have lr: "length (rgba_to_rgb24 pd) = rawBytesPerFrame"
    using length_rgba_to_rgb24[OF len] by (simp add: rawBytesPerFrame_eq)
  from digest_spec[OF lr] obtain out where out: "digest (rgba_to_rgb24 pd) = Inr out"
    "length out = processedBytesPerFrame"
    "\<forall>n < 8 * processedBytesPerFrame. payload_bit out n \<longleftrightarrow> sample_bit (rgba_to_rgb24 pd) n"
    by blast
  have bits: "payload_bit out n \<longleftrightarrow> payload_bit (pad_frame frame) n" if n: "n < 97200" for n
  proof -
    define d where "d = n div 3"
    have d: "d < 32400" using n by (simp add: d_def)
    have "d div 240 < 135" using d by simp
    then have yb: "8 * (d div 240) + 3 < 1080" by linarith
    have "d mod 240 < 240" by simp
    then have xb: "8 * (d mod 240) + 3 < 1920" by linarith
    have "n mod 3 < 3" by simp
    then have cb: "n mod 3 < 4" by linarith
    have "payload_bit out n \<longleftrightarrow> bit (rgba_to_rgb24 pd ! sample_pos n) 7"
      using out(3) n by (simp add: processedBytesPerFrame_eq sample_bit_def)
    also have "rgba_to_rgb24 pd ! sample_pos n =
        pd ! coord (8 * (d div 240) + 3) (8 * (d mod 240) + 3) (n mod 3)"
      using rgba_to_rgb24_sample[OF len n] by (simp add: d_def)
    also have "\<dots> = pack_pixel frame (8 * (d div 240) + 3) (8 * (d mod 240) + 3) (n mod 3)"
      using st'(3) yb xb cb by (simp add: pd_def)
    also have "\<dots> = (if payload_bit frame (3 * d + n mod 3) then 0xff else 0)"
      by (simp add: pack_pixel_def dot_of_sample)
    also have "3 * d + n mod 3 = n" by (simp add: d_def)
    finally have "payload_bit out n \<longleftrightarrow> payload_bit frame n" by (simp only: bit7_channel)
    then show ?thesis using payload_bit_pad[OF le n] by simp
  qed
  have "length out = length (pad_frame frame)"
    using out(2) assms(2) by (simp add: pad_frame_def)
  moreover have "\<forall>n < 8 * length out. payload_bit out n \<longleftrightarrow> payload_bit (pad_frame frame) n"
    using bits out(2) by (simp add: processedBytesPerFrame_eq)
  ultimately have "out = pad_frame frame" by (rule bytes_eq_by_bits)
  with ser len out(1) show ?thesis by simp
qed

lemma ffmpegInstance_in_order:
  assumes "distinct order" "set order = {0..<n}"
  shows "ffmpegInstance (map (\<lambda>i. \<lparr>frameID = i, frameValue = v i\<rparr>) order) =
         Inr (concat (map v [0..<n]))"
proof -
  have "set order \<inter> {} = {}" by simp
  from emitter_loop_correct[OF emitter_inv_init assms(1) this, of v]
  obtain st' where st': "emitter_loop emitter_init (map (\<lambda>i. \<lparr>frameID = i, frameValue = v i\<rparr>) order) = Inr st'"
    "emitter_inv v ({} \<union> set order) st'" by blast
  from st'(2) assms(2) have "emitter_inv v {0..<n} st'" by simp
  from emitter_inv_complete[OF this] st'(1) show ?thesis
    by (simp add: ffmpegInstance_def)
qed

lemma chunk_loop_sizes:
  assumes "\<forall>f \<in> set acc. 0 < length f \<and> length f \<le> processedBytesPerFrame"
  shows "\<forall>f \<in> set (chunk_loop bytes i acc). 0 < length f \<and> length f \<le> processedBytesPerFrame"
  using assms
proof (induction bytes i acc rule: chunk_loop.induct)
  case (1 bytes i rawFrames)
  show ?case
  proof (cases "i < length bytes")
    case False
    then have "chunk_loop bytes i rawFrames = rawFrames" by (subst chunk_loop.simps) simp
    with "1.prems" show ?thesis by simp
  next
    case True
    define end1 where "end1 = i + processedBytesPerFrame"
    define end2 where "end2 = (if end1 > length bytes then length bytes else end1)"
    define f where "f = take (end2 - i) (drop i bytes)"
    have step: "chunk_loop bytes i rawFrames = chunk_loop bytes (i + processedBytesPerFrame) (rawFrames @ [f])"
      using True by (subst chunk_loop.simps) (simp add: Let_def end1_def end2_def f_def)
    have "0 < length f \<and> length f \<le> processedBytesPerFrame"
      using True by (auto simp: f_def end2_def end1_def processedBytesPerFrame_eq)
    with "1.prems" have "\<forall>g \<in> set (rawFrames @ [f]). 0 < length g \<and> length g \<le> processedBytesPerFrame"
      by auto
    from "1.IH"[OF True end1_def end2_def[unfolded end1_def, folded end1_def] this[unfolded f_def]] step
    show ?thesis by (simp add: f_def)
  qed
qed

lemma rawFrames_sizes:
  "\<forall>f \<in> set (rawFrames_of file_in). 0 < length f \<and> length f \<le> processedBytesPerFrame"
  unfolding rawFrames_of_def by (rule chunk_loop_sizes) simp

lemma sequence_sum_map:
  assumes "\<forall>x \<in> set xs. f x = Inr (g x)"
  shows "sequence_sum (map f xs) = Inr (map g xs)"
  using assms by (induction xs) simp_all

lemma chunks_concat:
  assumes "0 < n" "\<forall>x \<in> set xs. length x = n"
  shows "chunks n (concat xs) = xs"
  using assms(2)
proof (induction xs)
  case Nil
  show ?case using assms(1) by (subst chunks.simps) simp
next
  case (Cons x xs)
  then have l: "length x = n" and r: "\<forall>y \<in> set xs. length y = n" by simp_all
  have "chunks n (concat (x # xs)) = take n (x @ concat xs) # chunks n (drop n (x @ concat xs))"
    using assms(1) l by (subst chunks.simps) simp
  also have "\<dots> = x # chunks n (concat xs)" using l by simp
  finally show ?case using Cons.IH[OF r] by simp
qed

lemma ffmpeg_reader_frames:
  assumes "\<forall>x \<in> set xs. length x = rawBytesPerFrame"
  shows "ffmpeg_reader (concat xs) = map (\<lambda>i. \<lparr>frameID = i, frameValue = xs ! i\<rparr>) [0..<length xs]"
proof -
  have "chunks rawBytesPerFrame (concat xs) = xs"
    using assms by (intro chunks_concat) (simp_all add: rawBytesPerFrame_eq)
  then show ?thesis
    by (auto simp: ffmpeg_reader_def enumerate_eq_zip intro!: nth_equalityI)
qed

lemma roundtrip_frames:
  assumes "distinct eorder" "set eorder = {0..<length (rawFrames_of file_in)}"
    "set dorder \<subseteq> {0..<length (rawFrames_of file_in)}"
  shows "roundtrip eorder dorder file_in =
         writer (map (\<lambda>i. \<lparr>frameID = i, frameValue = pad_frame (rawFrames_of file_in ! i)\<rparr>) dorder)"
proof -
  define frames where "frames = rawFrames_of file_in"
  define n where "n = length frames"
  define bitmap where "bitmap = (\<lambda>f. projr (serializer f))"
  define rgb where "rgb = (\<lambda>f. rgba_to_rgb24 (bitmap f))"
  have ok: "serializer f = Inr (bitmap f) \<and> length (bitmap f) = 8294400 \<and>
            digest (rgb f) = Inr (pad_frame f)" if "f \<in> set frames" for f
  proof -
    from that rawFrames_sizes[of file_in]
    have "0 < length f" "length f \<le> processedBytesPerFrame" by (simp_all add: frames_def)
    from unpack_pack[OF this] show ?thesis by (auto simp: bitmap_def rgb_def)
  qed
  have ss: "sequence_sum (map serializer frames) = Inr (map bitmap frames)"
    using ok by (intro sequence_sum_map) simp
  have arr: "map (\<lambda>id. \<lparr>frameID = id, frameValue = map bitmap frames ! id\<rparr>) eorder =
             map (\<lambda>i. \<lparr>frameID = i, frameValue = bitmap (frames ! i)\<rparr>) eorder"
    using assms(2) by (intro map_cong) (auto simp: frames_def)
  have "map (\<lambda>i. bitmap (frames ! i)) [0..<n] = map bitmap frames"
    unfolding n_def by (intro nth_equalityI) simp_all
  with ffmpegInstance_in_order[OF assms(1) assms(2)[folded frames_def n_def], of "\<lambda>i. bitmap (frames ! i)"]
  have emit: "ffmpegInstance (map (\<lambda>i. \<lparr>frameID = i, frameValue = bitmap (frames ! i)\<rparr>) eorder) =
              Inr (concat (map bitmap frames))" by simp
  have enc: "encode eorder file_in = Inr (concat (map bitmap frames))"
    by (simp only: encode_def frames_def[symmetric] ss sum.case arr emit)
  have "chunks 8294400 (concat (map bitmap frames)) = map bitmap frames"
    using ok by (intro chunks_concat) auto
  then have cod: "codec (concat (map bitmap frames)) = concat (map rgb frames)"
    by (simp add: codec_def frameWidth_def frameHeight_def rgb_def comp_def)
  have lr: "\<forall>x \<in> set (map rgb frames). length x = rawBytesPerFrame"
    using ok length_rgba_to_rgb24 by (auto simp: rgb_def rawBytesPerFrame_eq)
  have rd: "ffmpeg_reader (concat (map rgb frames)) =
            map (\<lambda>i. \<lparr>frameID = i, frameValue = rgb (frames ! i)\<rparr>) [0..<n]"
    using ffmpeg_reader_frames[OF lr] by (simp add: n_def cong: map_cong)
  define g where "g = (\<lambda>i. \<lparr>frameID = i, frameValue = pad_frame (frames ! i)\<rparr>)"
  have "\<forall>i \<in> set [0..<n]. digest_frame \<lparr>frameID = i, frameValue = rgb (frames ! i)\<rparr> = Inr (g i)"
    using ok by (simp add: digest_frame_def g_def n_def)
  then have dg: "sequence_sum (map digest_frame (ffmpeg_reader (concat (map rgb frames)))) =
             Inr (map g [0..<n])"
    unfolding rd map_map comp_def by (rule sequence_sum_map)
  have sel: "map (\<lambda>id. map g [0..<n] ! id) dorder = map g dorder"
    using assms(3) by (intro map_cong) (auto simp: frames_def n_def)
  have dec: "decode dorder (concat (map rgb frames)) = writer (map g dorder)"
    by (simp only: decode_def dg sum.case sel)
  have "roundtrip eorder dorder file_in = writer (map g dorder)"
    by (simp only: roundtrip_def enc sum.case cod dec)
  then show ?thesis
    by (simp only: g_def frames_def)
qed

lemma length_PutUint64: "length (PutUint64 v) = 8"
  by (simp add: PutUint64_def)

lemma chunk_loop_eq:
  "chunk_loop bytes i acc =
   acc @ map (\<lambda>j. take 12150 (drop (i + j * 12150) bytes))
             [0..<(length bytes - i + 12149) div 12150]"
proof (induction bytes i acc rule: chunk_loop.induct)
  case (1 bytes i rawFrames)
  show ?case
  proof (cases "i < length bytes")
    case False
    then have "chunk_loop bytes i rawFrames = rawFrames" by (subst chunk_loop.simps) simp
    moreover have "(length bytes - i + 12149) div 12150 = 0" using False by simp
    ultimately show ?thesis by simp
  next
    case True
    define end1 where "end1 = i + processedBytesPerFrame"
    define end2 where "end2 = (if end1 > length bytes then length bytes else end1)"
    define f where "f = take (end2 - i) (drop i bytes)"
    have step: "chunk_loop bytes i rawFrames = chunk_loop bytes (i + processedBytesPerFrame) (rawFrames @ [f])"
      using True by (subst chunk_loop.simps) (simp add: Let_def end1_def end2_def f_def)
    have f: "f = take 12150 (drop i bytes)"
      using True by (auto simp: f_def end2_def end1_def processedBytesPerFrame_eq)
    define m where "m = (length bytes - (i + 12150) + 12149) div 12150"
    have cnt: "(length bytes - i + 12149) div 12150 = Suc m"
    proof (cases "length bytes - i \<le> 12150")
      case le: True
      then have "m = 0" by (simp add: m_def)
      moreover have "(length bytes - i + 12149) div 12150 = 1"
        using True le by (intro div_nat_eqI) simp_all
      ultimately show ?thesis by simp
    next
      case False
      then have "length bytes - i + 12149 = (length bytes - (i + 12150) + 12149) + 12150" by simp
      then show ?thesis unfolding m_def by (metis div_add_self2 zero_neq_numeral Suc_eq_plus1)
    qed
    have ih: "chunk_loop bytes (i + processedBytesPerFrame) (rawFrames @ [f]) =
        (rawFrames @ [f]) @ map (\<lambda>j. take 12150 (drop (i + processedBytesPerFrame + j * 12150) bytes)) [0..<m]"
      using "1.IH"[OF True end1_def end2_def[unfolded end1_def, folded end1_def]]
      by (simp add: f_def m_def processedBytesPerFrame_eq)
    have "map (\<lambda>j. take 12150 (drop (i + j * 12150) bytes)) [0..<Suc m] =
          f # map (\<lambda>j. take 12150 (drop (i + processedBytesPerFrame + j * 12150) bytes)) [0..<m]"
      by (simp add: f upt_conv_Cons map_Suc_upt[symmetric] processedBytesPerFrame_eq
               add.assoc del: upt_Suc)
    then show ?thesis unfolding step ih cnt by simp
  qed
qed

lemma rawFrames_of_eq:
  "rawFrames_of file_in =
   map (\<lambda>j. take 12150 (drop (j * 12150) (add_length_bytes file_in)))
       [0..<(length file_in + 12157) div 12150]"
proof -
  have "length (add_length_bytes file_in) - 0 + 12149 = length file_in + 12157"
    by (simp add: add_length_bytes_def length_PutUint64)
  then show ?thesis unfolding rawFrames_of_def chunk_loop_eq by (simp add: add.commute)
qed

lemma length_rawFrames_of:
  "length (rawFrames_of file_in) = (length file_in + 12157) div 12150"
  by (simp add: rawFrames_of_eq)

section \<open>The reorder buffer at every reachable state\<close>

lemma find_distinct_id:
  "distinct (map frameID frames) \<Longrightarrow> f \<in> set frames \<Longrightarrow>
   find (\<lambda>g. frameID g = frameID f) frames = Some f"
  by (induction frames) (auto simp: image_iff)

lemma emitter_reachable_inv:
  assumes "distinct (map frameID frames)"
  shows "\<exists>st. emitter_loop emitter_init frames = Inr st \<and> reorder_inv st"
proof -
  define v where "v = (\<lambda>i. frameValue (the (find (\<lambda>g. frameID g = i) frames)))"
  have "map (\<lambda>i. \<lparr>frameID = i, frameValue = v i\<rparr>) (map frameID frames) = frames"
    unfolding map_map comp_def
    by (rule map_idI) (simp add: v_def find_distinct_id[OF assms])
  moreover from emitter_loop_correct[OF emitter_inv_init assms, of v]
  obtain st where "emitter_loop emitter_init (map (\<lambda>i. \<lparr>frameID = i, frameValue = v i\<rparr>) (map frameID frames)) = Inr st"
    "emitter_inv v ({} \<union> set (map frameID frames)) st" by auto
  ultimately show ?thesis
    by (auto simp: emitter_inv_def emitter_pre_def reorder_inv_def)
qed

lemma buffer_insert_ok:
  assumes "writer_ok R st" "frameID f \<notin> R" "wantedID st \<le> frameID f"
  shows "writer_ok (insert (frameID f) R) (buffer_insert st f)"
proof -
  have P: "sorted (keys st)" "distinct (keys st)" "keysLen st = length (keys st)"
    "dom (buffer st) = set (keys st)" "\<forall>k \<in> set (keys st). wantedID st \<le> k"
    "set (keys st) \<subseteq> R" "\<forall>i. 0 < i \<and> i < wantedID st \<longrightarrow> i \<in> R" "0 < wantedID st"
    using assms(1) by (simp_all add: writer_ok_def reorder_inv_weak_def)
  have nk: "frameID f \<notin> set (keys st)" using P(6) assms(2) by auto
  show ?thesis
    unfolding writer_ok_def reorder_inv_weak_def buffer_insert_def
    using P nk assms(3)
    by (auto simp: sorted_insert_key distinct_insert_key length_insert_key set_insert_key)
qed

lemma writer_frame0_reorder:
  assumes "writer_frame0 st fv = Inr st'"
  shows "keys st' = keys st \<and> keysLen st' = keysLen st \<and> buffer st' = buffer st \<and>
         wantedID st' = wantedID st"
  using assms
  by (auto simp: writer_frame0_def Let_def split: if_splits sum.splits)

lemma writer_drain_ok:
  assumes "reorder_inv_weak st" "set (keys st) \<subseteq> R"
    "\<forall>i. 0 < i \<and> i < wantedID st \<longrightarrow> i \<in> R" "0 < wantedID st" "keys st \<noteq> []"
  shows "\<exists>st'. writer_drain st = Inr st' \<and> writer_ok R st'"
  using assms
proof (induction "length (keys st)" arbitrary: st rule: less_induct)
  case less
  from less.prems(5) obtain k ks where ks: "keys st = k # ks" by (cases "keys st") auto
  have P: "sorted (k # ks)" "distinct (k # ks)" "keysLen st = Suc (length ks)"
    "dom (buffer st) = set (k # ks)" "\<forall>j \<in> set (k # ks). wantedID st \<le> j"
    using less.prems(1) ks by (simp_all add: reorder_inv_weak_def)
  show ?case
  proof (cases "k = wantedID st")
    case False
    have "writer_drain st = Inr st"
      using ks False by (subst writer_drain.simps) simp
    with less.prems show ?thesis by (auto simp: writer_ok_def)
  next
    case True
    define st1 where "st1 = st\<lparr>file_bytes := write_at (file_bytes st) (map_get (buffer st) (wantedID st)) (nextWriteByte st),
                          buffer := (buffer st)(wantedID st := None),
                          keys := ks,
                          keysLen := keysLen st - 1,
                          wantedID := wantedID st + 1,
                          nextWriteByte := nextWriteByte st + processedBytesPerFrame\<rparr>"
    have step: "writer_drain st = (if keysLen st1 = 0 then Inr st1 else writer_drain st1)"
      using ks True by (subst writer_drain.simps) (simp add: st1_def Let_def)
    have ge: "\<forall>j \<in> set ks. wantedID st + 1 \<le> j"
    proof
      fix j assume j: "j \<in> set ks"
      with P(5) have "wantedID st \<le> j" by simp
      moreover from j P(2) True have "j \<noteq> wantedID st" by auto
      ultimately show "wantedID st + 1 \<le> j" by simp
    qed
    have w1: "reorder_inv_weak st1"
      unfolding reorder_inv_weak_def
      using P ge True by (auto simp: st1_def)
    have r1: "set (keys st1) \<subseteq> R" using less.prems(2) ks by (auto simp: st1_def)
    have "wantedID st \<in> R" using less.prems(2) ks True by auto
    then have i1: "\<forall>i. 0 < i \<and> i < wantedID st1 \<longrightarrow> i \<in> R"
      using less.prems(3) by (auto simp: st1_def less_Suc_eq)
    have p1: "0 < wantedID st1" by (simp add: st1_def)
    show ?thesis
    proof (cases "keysLen st1 = 0")
      case True
      with step w1 r1 i1 p1 show ?thesis by (simp add: writer_ok_def)
    next
      case False
      then have ne: "keys st1 \<noteq> []" using w1 by (auto simp: reorder_inv_weak_def)
      have "length (keys st1) < length (keys st)" using ks by (simp add: st1_def)
      from less.hyps[OF this w1 r1 i1 p1 ne] step False show ?thesis by simp
    qed
  qed
qed

lemma writer_step_ok:
  assumes "writer_ok R st" "frameID f \<notin> R" "0 \<in> R" "writer_step st f = Inr st'"
  shows "writer_ok (insert (frameID f) R) st'"
proof -
  have P: "reorder_inv_weak st" "set (keys st) \<subseteq> R"
    "\<forall>i. 0 < i \<and> i < wantedID st \<longrightarrow> i \<in> R" "0 < wantedID st"
    using assms(1) by (simp_all add: writer_ok_def)
  show ?thesis
  proof (cases "frameID f = wantedID st")
    case True
    from assms(4) True obtain v where v: "last_frame_cut st f = Inr v"
      by (auto simp: writer_step_def split: sum.splits)
    define st1 where "st1 = st\<lparr>file_bytes := write_at (file_bytes st) v (nextWriteByte st),
                           nextWriteByte := nextWriteByte st + processedBytesPerFrame,
                           wantedID := wantedID st + 1\<rparr>"
    have step: "writer_step st f = (if keysLen st1 = 0 then Inr st1 else writer_drain st1)"
      using True v by (simp add: writer_step_def st1_def Let_def)
    have nk: "wantedID st \<notin> set (keys st)" using P(2) assms(2) True by auto
    have w1: "reorder_inv_weak st1"
      using P(1) nk unfolding reorder_inv_weak_def
      by (auto simp: st1_def Suc_le_eq le_less)
    have r1: "set (keys st1) \<subseteq> insert (frameID f) R" using P(2) by (auto simp: st1_def)
    have i1: "\<forall>i. 0 < i \<and> i < wantedID st1 \<longrightarrow> i \<in> insert (frameID f) R"
      using P(3) True by (auto simp: st1_def less_Suc_eq)
    have p1: "0 < wantedID st1" by (simp add: st1_def)
    show ?thesis
    proof (cases "keysLen st1 = 0")
      case True
      with step assms(4) w1 r1 i1 p1 show ?thesis by (simp add: writer_ok_def)
    next
      case False
      then have ne: "keys st1 \<noteq> []" using w1 by (auto simp: reorder_inv_weak_def)
      from step False assms(4) have "writer_drain st1 = Inr st'" by simp
      with writer_drain_ok[OF w1 r1 i1 p1 ne] show ?thesis by auto
    qed
  next
    case False
    have "frameID f \<noteq> 0"
    proof
      assume "frameID f = 0"
      with assms(2,3) show False by simp
    qed
    then have "\<not> frameID f < wantedID st" using P(3) assms(2) by auto
    then have le: "wantedID st \<le> frameID f" by simp
    have "st' = buffer_insert st f" using assms(4) False by (simp add: writer_step_def)
    with buffer_insert_ok[OF assms(1,2) le] show ?thesis by simp
  qed
qed

lemma writer_second_ok:
  "writer_ok R st \<Longrightarrow> distinct (map frameID frames) \<Longrightarrow> frameID ` set frames \<inter> R = {} \<Longrightarrow>
   0 \<in> R \<Longrightarrow> writer_second st frames = Inr st' \<Longrightarrow> reorder_inv_weak st'"
proof (induction frames arbitrary: st R)
  case Nil
  then show ?case by (simp add: writer_ok_def)
next
  case (Cons f frames)
  from Cons.prems(5) obtain st1 where s1: "writer_step st f = Inr st1"
    "writer_second st1 frames = Inr st'" by (auto split: sum.splits)
  have nf: "frameID f \<notin> R" using Cons.prems(3) by auto
  from writer_step_ok[OF Cons.prems(1) nf Cons.prems(4) s1(1)]
  have ok1: "writer_ok (insert (frameID f) R) st1" .
  have "distinct (map frameID frames)" "frameID ` set frames \<inter> insert (frameID f) R = {}"
    "0 \<in> insert (frameID f) R"
    using Cons.prems(2,3,4) by auto
  from Cons.IH[OF ok1 this s1(2)] show ?case .
qed

lemma writer_first_ok:
  "writer_ok R st \<Longrightarrow> wantedID st = 1 \<Longrightarrow> distinct (map frameID frames) \<Longrightarrow>
   frameID ` set frames \<inter> R = {} \<Longrightarrow> 0 \<notin> R \<Longrightarrow>
   writer_first st frames = Inr (st1, rest) \<Longrightarrow>
   \<exists>R'. writer_ok R' st1 \<and> distinct (map frameID rest) \<and> frameID ` set rest \<inter> R' = {} \<and>
        (rest = [] \<or> 0 \<in> R')"
proof (induction frames arbitrary: st R)
  case Nil
  then show ?case by auto
next
  case (Cons f frames)
  show ?case
  proof (cases "frameID f = 0")
    case True
    from Cons.prems(6) True obtain s where s: "writer_frame0 st (frameValue f) = Inr s"
      "st1 = s" "rest = frames" by (auto split: sum.splits)
    from writer_frame0_reorder[OF s(1)] Cons.prems(1)
    have "writer_ok (insert 0 R) s"
      by (auto simp: writer_ok_def reorder_inv_weak_def)
    moreover have "distinct (map frameID frames)" "frameID ` set frames \<inter> insert 0 R = {}"
      using Cons.prems(3,4) True by auto
    ultimately show ?thesis using s(2,3) by blast
  next
    case False
    then have rec: "writer_first (buffer_insert st f) frames = Inr (st1, rest)"
      using Cons.prems(6) by simp
    have nf: "frameID f \<notin> R" using Cons.prems(4) by auto
    have le: "wantedID st \<le> frameID f" using False Cons.prems(2) by simp
    have ok: "writer_ok (insert (frameID f) R) (buffer_insert st f)"
      using buffer_insert_ok[OF Cons.prems(1) nf le] .
    have w: "wantedID (buffer_insert st f) = 1" using Cons.prems(2) by (simp add: buffer_insert_def)
    have "distinct (map frameID frames)" "frameID ` set frames \<inter> insert (frameID f) R = {}"
      "0 \<notin> insert (frameID f) R"
      using Cons.prems(3,4,5) False by auto
    from Cons.IH[OF ok w this rec] show ?thesis .
  qed
qed

lemma writer_reachable_inv:
  assumes "distinct (map frameID frames)" "writer_run frames = Inr st"
  shows "reorder_inv_weak st"
proof -
  from assms(2) obtain st1 rest where f: "writer_first writer_init frames = Inr (st1, rest)"
    and s: "writer_second st1 rest = Inr st"
    by (auto simp: writer_run_def split: sum.splits)
  have ok0: "writer_ok {} writer_init"
    by (auto simp: writer_ok_def reorder_inv_weak_def writer_init_def)
  have w0: "wantedID writer_init = 1" by (simp add: writer_init_def)
  from writer_first_ok[OF ok0 w0 assms(1) _ _ f]
  obtain R' where R': "writer_ok R' st1" "distinct (map frameID rest)"
    "frameID ` set rest \<inter> R' = {}" "rest = [] \<or> 0 \<in> R'" by auto
  show ?thesis
  proof (cases "rest = []")
    case True
    with s R'(1) show ?thesis by (simp add: writer_ok_def)
  next
    case False
    with R'(4) have "0 \<in> R'" by simp
    from writer_second_ok[OF R'(1,2,3) this s] show ?thesis .
  qed
qed

text \<open>
  What the cursor adds. While frame 0 has not come the first loop only buffers, so the
  cursor keeps its initial value. Once frame 0 is written, every buffered index is beyond
  the cursor, if frame 1 was not among the frames buffered by the first loop: the drain
  loop stops at a head of \<open>keys\<close> other than the cursor, and a frame that misses the cursor
  is one not yet written.
\<close>

lemma writer_first_pending:
  "0 \<notin> frameID ` set frames \<Longrightarrow> writer_first st frames = Inr (st1, rest) \<Longrightarrow>
   wantedID st1 = wantedID st \<and> rest = []"
proof (induction frames arbitrary: st)
  case Nil
  then show ?case by simp
next
  case (Cons f frames)
  from Cons.prems have "writer_first (buffer_insert st f) frames = Inr (st1, rest)" by simp
  moreover have "0 \<notin> frameID ` set frames" using Cons.prems(1) by simp
  ultimately have "wantedID st1 = wantedID (buffer_insert st f) \<and> rest = []"
    by (rule Cons.IH[rotated])
  then show ?case by (simp add: buffer_insert_def)
qed

lemma writer_first_keys:
  "sorted (keys st) \<Longrightarrow> writer_first st frames = Inr (st1, rest) \<Longrightarrow>
   set (keys st1) = set (keys st) \<union> frameID ` set (takeWhile (\<lambda>f. frameID f \<noteq> 0) frames) \<and>
   wantedID st1 = wantedID st"
proof (induction frames arbitrary: st)
  case Nil
  then show ?case by simp
next
  case (Cons f frames)
  show ?case
  proof (cases "frameID f = 0")
    case True
    with Cons.prems(2) obtain s where "writer_frame0 st (frameValue f) = Inr s" "st1 = s"
      by (auto split: sum.splits)
    with writer_frame0_reorder[of st "frameValue f" s] True show ?thesis by simp
  next
    case False
    with Cons.prems(2) have r: "writer_first (buffer_insert st f) frames = Inr (st1, rest)" by simp
    have k: "set (keys (buffer_insert st f)) = insert (frameID f) (set (keys st))"
      "wantedID (buffer_insert st f) = wantedID st"
      using Cons.prems(1) by (simp_all add: buffer_insert_def set_insert_key)
    have "sorted (keys (buffer_insert st f))"
      using Cons.prems(1) by (simp add: buffer_insert_def sorted_insert_key)
    from Cons.IH[OF this r] False show ?thesis unfolding k by auto
  qed
qed

lemma writer_drain_stops:
  assumes "reorder_inv_weak st" "keys st \<noteq> []" "writer_drain st = Inr st'"
  shows "\<forall>k \<in> set (keys st'). wantedID st' < k"
  using assms
proof (induction "length (keys st)" arbitrary: st rule: less_induct)
  case less
  from less.prems(2) obtain k ks where ks: "keys st = k # ks" by (cases "keys st") auto
  have P: "sorted (k # ks)" "distinct (k # ks)" "keysLen st = Suc (length ks)"
    "dom (buffer st) = set (k # ks)" "\<forall>j \<in> set (k # ks). wantedID st \<le> j"
    using less.prems(1) ks by (simp_all add: reorder_inv_weak_def)
  show ?case
  proof (cases "k = wantedID st")
    case False
    have "writer_drain st = Inr st"
      using ks False by (subst writer_drain.simps) simp
    with less.prems(3) have e: "st' = st" by simp
    have "wantedID st < k" using P(5) False by (simp add: le_less)
    moreover have "\<forall>j \<in> set ks. k \<le> j" using P(1) by simp
    ultimately show ?thesis using ks e by auto
  next
    case True
    define st1 where "st1 = st\<lparr>file_bytes := write_at (file_bytes st) (map_get (buffer st) (wantedID st)) (nextWriteByte st),
                          buffer := (buffer st)(wantedID st := None),
                          keys := ks,
                          keysLen := keysLen st - 1,
                          wantedID := wantedID st + 1,
                          nextWriteByte := nextWriteByte st + processedBytesPerFrame\<rparr>"
    have step: "writer_drain st = (if keysLen st1 = 0 then Inr st1 else writer_drain st1)"
      using ks True by (subst writer_drain.simps) (simp add: st1_def Let_def)
    have ge: "\<forall>j \<in> set ks. wantedID st + 1 \<le> j"
    proof
      fix j assume j: "j \<in> set ks"
      with P(5) have "wantedID st \<le> j" by simp
      moreover from j P(2) True have "j \<noteq> wantedID st" by auto
      ultimately show "wantedID st + 1 \<le> j" by simp
    qed
    have w1: "reorder_inv_weak st1"
      unfolding reorder_inv_weak_def
      using P ge True by (auto simp: st1_def)
    show ?thesis
    proof (cases "keysLen st1 = 0")
      case True
      then have "keys st1 = []" using w1 by (simp add: reorder_inv_weak_def)
      moreover from step True less.prems(3) have "st' = st1" by simp
      ultimately show ?thesis by simp
    next
      case False
      then have ne: "keys st1 \<noteq> []" using w1 by (auto simp: reorder_inv_weak_def)
      have "length (keys st1) < length (keys st)" using ks by (simp add: st1_def)
      moreover from step False less.prems(3) have "writer_drain st1 = Inr st'" by simp
      ultimately show ?thesis using less.hyps w1 ne by blast
    qed
  qed
qed

lemma writer_step_strict:
  assumes "writer_ok R st" "\<forall>k \<in> set (keys st). wantedID st < k" "frameID f \<notin> R" "0 \<in> R"
    "writer_step st f = Inr st'"
  shows "\<forall>k \<in> set (keys st'). wantedID st' < k"
proof -
  have P: "reorder_inv_weak st" "set (keys st) \<subseteq> R"
    "\<forall>i. 0 < i \<and> i < wantedID st \<longrightarrow> i \<in> R" "0 < wantedID st"
    using assms(1) by (simp_all add: writer_ok_def)
  show ?thesis
  proof (cases "frameID f = wantedID st")
    case True
    from assms(5) True obtain v where v: "last_frame_cut st f = Inr v"
      by (auto simp: writer_step_def split: sum.splits)
    define st1 where "st1 = st\<lparr>file_bytes := write_at (file_bytes st) v (nextWriteByte st),
                           nextWriteByte := nextWriteByte st + processedBytesPerFrame,
                           wantedID := wantedID st + 1\<rparr>"
    have step: "writer_step st f = (if keysLen st1 = 0 then Inr st1 else writer_drain st1)"
      using True v by (simp add: writer_step_def st1_def Let_def)
    have w1: "reorder_inv_weak st1"
      using P(1) assms(2) unfolding reorder_inv_weak_def
      by (auto simp: st1_def Suc_le_eq)
    show ?thesis
    proof (cases "keysLen st1 = 0")
      case True
      then have "keys st1 = []" using w1 by (simp add: reorder_inv_weak_def)
      moreover from step True assms(5) have "st' = st1" by simp
      ultimately show ?thesis by simp
    next
      case False
      then have ne: "keys st1 \<noteq> []" using w1 by (auto simp: reorder_inv_weak_def)
      from step False assms(5) have "writer_drain st1 = Inr st'" by simp
      from writer_drain_stops[OF w1 ne this] show ?thesis .
    qed
  next
    case False
    have "frameID f \<noteq> 0"
    proof
      assume "frameID f = 0"
      with assms(3,4) show False by simp
    qed
    then have "\<not> frameID f < wantedID st" using P(3) assms(3) by auto
    with False have lt: "wantedID st < frameID f" by simp
    have "st' = buffer_insert st f" using assms(5) False by (simp add: writer_step_def)
    moreover have "sorted (keys st)" using P(1) by (simp add: reorder_inv_weak_def)
    ultimately show ?thesis using assms(2) lt by (auto simp: buffer_insert_def set_insert_key)
  qed
qed

lemma writer_second_strict:
  "writer_ok R st \<Longrightarrow> \<forall>k \<in> set (keys st). wantedID st < k \<Longrightarrow>
   distinct (map frameID frames) \<Longrightarrow> frameID ` set frames \<inter> R = {} \<Longrightarrow>
   0 \<in> R \<Longrightarrow> writer_second st frames = Inr st' \<Longrightarrow> \<forall>k \<in> set (keys st'). wantedID st' < k"
proof (induction frames arbitrary: st R)
  case Nil
  then show ?case by simp
next
  case (Cons f frames)
  from Cons.prems(6) obtain st1 where s1: "writer_step st f = Inr st1"
    "writer_second st1 frames = Inr st'" by (auto split: sum.splits)
  have nf: "frameID f \<notin> R" using Cons.prems(4) by auto
  from writer_step_ok[OF Cons.prems(1) nf Cons.prems(5) s1(1)]
  have ok1: "writer_ok (insert (frameID f) R) st1" .
  from writer_step_strict[OF Cons.prems(1,2) nf Cons.prems(5) s1(1)]
  have strict1: "\<forall>k \<in> set (keys st1). wantedID st1 < k" .
  have "distinct (map frameID frames)" "frameID ` set frames \<inter> insert (frameID f) R = {}"
    "0 \<in> insert (frameID f) R"
    using Cons.prems(3,4,5) by auto
  from Cons.IH[OF ok1 strict1 this s1(2)] show ?case .
qed

lemma writer_reachable_pending:
  assumes "0 \<notin> frameID ` set frames" "writer_run frames = Inr st"
  shows "wantedID st = 1"
proof -
  from assms(2) obtain st1 rest where f: "writer_first writer_init frames = Inr (st1, rest)"
    and s: "writer_second st1 rest = Inr st"
    by (auto simp: writer_run_def split: sum.splits)
  from writer_first_pending[OF assms(1) f] s show ?thesis by (simp add: writer_init_def)
qed

lemma writer_reachable_strict:
  assumes "distinct (map frameID frames)" "0 \<in> frameID ` set frames"
    "1 \<notin> frameID ` set (takeWhile (\<lambda>f. frameID f \<noteq> 0) frames)"
    "writer_run frames = Inr st"
  shows "reorder_inv st"
proof -
  from assms(4) obtain st1 rest where f: "writer_first writer_init frames = Inr (st1, rest)"
    and s: "writer_second st1 rest = Inr st"
    by (auto simp: writer_run_def split: sum.splits)
  have ok0: "writer_ok {} writer_init"
    by (auto simp: writer_ok_def reorder_inv_weak_def writer_init_def)
  have w0: "wantedID writer_init = 1" by (simp add: writer_init_def)
  from writer_first_ok[OF ok0 w0 assms(1) _ _ f]
  obtain R' where R': "writer_ok R' st1" "distinct (map frameID rest)"
    "frameID ` set rest \<inter> R' = {}" "rest = [] \<or> 0 \<in> R'" by auto
  have "sorted (keys writer_init)" by (simp add: writer_init_def)
  from writer_first_keys[OF this f]
  have k1: "set (keys st1) = frameID ` set (takeWhile (\<lambda>f. frameID f \<noteq> 0) frames)"
    "wantedID st1 = 1" by (simp_all add: writer_init_def)
  have strict1: "\<forall>k \<in> set (keys st1). wantedID st1 < k"
  proof
    fix k assume k: "k \<in> set (keys st1)"
    with k1(1) assms(3) have "k \<noteq> 1" by blast
    moreover from k R'(1) have "wantedID st1 \<le> k" by (simp add: writer_ok_def reorder_inv_weak_def)
    ultimately show "wantedID st1 < k" using k1(2) by simp
  qed
  have weak: "reorder_inv_weak st" using writer_reachable_inv[OF assms(1,4)] .
  have "\<forall>k \<in> set (keys st). wantedID st < k"
  proof (cases "rest = []")
    case True
    with s strict1 show ?thesis by simp
  next
    case False
    with R'(4) have "0 \<in> R'" by simp
    from writer_second_strict[OF R'(1) strict1 R'(2,3) this s] show ?thesis .
  qed
  with weak show ?thesis by (simp add: reorder_inv_def reorder_inv_weak_def)
qed

section \<open>Concrete files\<close>

text \<open>
  The segments of five files of bytes \<open>0x41\<close> (1, 9, 20000, 24292 and 24293 bytes), and
  the rewrite rules that run the Ordered Writer on their digested frames.
\<close>

lemma frames_A: "rawFrames_of [0x41] = [PutUint64 1 @ [0x41]]"
  by (simp add: rawFrames_of_eq add_length_bytes_def length_PutUint64)

lemma frames_9: "rawFrames_of (replicate 9 0x41) = [PutUint64 9 @ replicate 9 0x41]"
  by (simp add: rawFrames_of_eq add_length_bytes_def length_PutUint64)

lemma upt3: "[0..<3] = [0, 1, 2]"
  by (simp add: numeral_2_eq_2 numeral_3_eq_3)

lemma upt2: "[0..<2] = [0, 1]"
  by (simp add: numeral_2_eq_2)

lemma frames_20000:
  "rawFrames_of (replicate 20000 0x41) =
     [PutUint64 20000 @ replicate 12142 0x41, replicate 7858 0x41]"
  by (simp add: rawFrames_of_eq add_length_bytes_def length_PutUint64 upt2)

lemma frames_24292:
  "rawFrames_of (replicate 24292 0x41) =
     [PutUint64 24292 @ replicate 12142 0x41, replicate 12150 0x41]"
  by (simp add: rawFrames_of_eq add_length_bytes_def length_PutUint64 upt2)

lemma frames_24293:
  "rawFrames_of (replicate 24293 0x41) =
     [PutUint64 24293 @ replicate 12142 0x41, replicate 12150 0x41, [0x41]]"
  by (simp add: rawFrames_of_eq add_length_bytes_def length_PutUint64 upt3)

lemma take8_header: "take 8 (PutUint64 v @ xs) = PutUint64 v"
  by (simp add: length_PutUint64)

lemma drop8_header: "drop 8 (PutUint64 v @ xs) = xs"
  by (simp add: length_PutUint64)

lemma header_values:
  "Uint64 (PutUint64 1) = 1" "Uint64 (PutUint64 9) = 9" "Uint64 (PutUint64 20000) = 20000"
  "Uint64 (PutUint64 24292) = 24292" "Uint64 (PutUint64 24293) = 24293"
  by (simp_all add: PutUint64_def Uint64_def)

lemmas writer_eval =
  writer_def writer_run_def writer_frame0_def writer_init_def writer_step_def
  last_frame_cut_def ceil_div_def truncate_file_def write_at_def buffer_insert_def
  map_get_def take8_header drop8_header header_values length_PutUint64
  processedBytesPerFrame_eq Let_def

lemma insert_key_empty: "insert_key [] k = [k]"
proof -
  have "sort_Search 0 f = 0" for f
    unfolding sort_Search_def by (subst search_loop.simps) simp
  then show ?thesis by (simp add: insert_key_def copy_shift_def)
qed

lemma writer_run_overtaking:
  "\<exists>st. writer_run overtaking_frames = Inr st \<and> keys st = [1] \<and> wantedID st = 1 \<and>
        buffer st 1 = Some (replicate 7858 0x41 @ replicate 4292 0)"
  by (simp add: overtaking_frames_def writer_eval insert_key_empty)

lemma writer_run_pending:
  "\<exists>st. writer_run pending_frames = Inr st \<and> keys st = [1] \<and> wantedID st = 1 \<and>
        buffer st 1 = Some (replicate 7858 0x41 @ replicate 4292 0)"
  by (simp add: pending_frames_def writer_eval insert_key_empty)

lemma writer_run_gap:
  "\<exists>st. writer_run gap_frames = Inr st \<and> keys st = [2] \<and> wantedID st = 1"
  by (simp add: gap_frames_def writer_eval insert_key_empty)

section \<open>Claims on the Frame Packer and the Frame Unpacker\<close>

text \<open>
  Claim C3. For every payload segment of at most \<open>processedBytesPerFrame\<close> bytes, a
  segment having at least one byte since the Chunker yields no other (\<open>rawFrames_sizes\<close>),
  the Frame Packer returns the bitmap of
  \<open>frameWidth * frameHeight * 4\<close> bytes in which channel \<open>c < 3\<close> of the pixel in line \<open>y\<close>,
  column \<open>x\<close> is \<open>0xFF\<close> when bit \<open>3 * d + c\<close> of the payload (counted from the most
  significant bit of byte 0) is set, where \<open>d\<close> is the row-major index of the macro-dot
  covering the pixel, and \<open>0x00\<close> otherwise; the alpha byte and every macro-dot past the
  end of the payload stay at zero.
\<close>

theorem serializer_bitmap:
  assumes "0 < length frame" "length frame \<le> processedBytesPerFrame"
  shows "\<exists>pd. serializer frame = Inr pd \<and> length pd = frameWidth * frameHeight * 4 \<and>
           (\<forall>y x c. y < frameHeight \<longrightarrow> x < frameWidth \<longrightarrow> c < 4 \<longrightarrow>
              pd ! (y * 7680 + x * 4 + c) =
                (if c < 3 \<and> payload_bit frame (3 * ((y div dotSize) * width + x div dotSize) + c)
                 then 0xff else 0))"
proof -
  from serializer_loop_spec[OF serializer_inv_init[OF assms(1)] assms(2)[unfolded processedBytesPerFrame_eq]]
  obtain st' where "serializer_loop frame serializer_init = Inr st'"
    "length (pixelData st') = 8294400"
    "\<forall>y x c. y < 1080 \<longrightarrow> x < 1920 \<longrightarrow> c < 4 \<longrightarrow>
              pixelData st' ! coord y x c = pack_pixel frame y x c" by blast
  then show ?thesis
    by (simp add: serializer_def frameWidth_def frameHeight_def coord_def pack_pixel_def dot_of_def)
qed

theorem serializer_bitmap_witness:
  "\<exists>pd. serializer [0xA5] = Inr pd \<and> length pd = 8294400 \<and>
     pd ! 0 = 0xff \<and> pd ! 1 = 0 \<and> pd ! 2 = 0xff \<and> pd ! 3 = 0 \<and>
     pd ! (7 * 7680 + 7 * 4 + 2) = 0xff \<and>
     pd ! (8 * 4 + 2) = 0xff \<and> pd ! (16 * 4 + 1) = 0xff \<and> pd ! (24 * 4 + 1) = 0 \<and>
     pd ! (8 * 7680) = 0"
proof -
  have a: "0 < length [0xA5 :: byte]" "length [0xA5 :: byte] \<le> processedBytesPerFrame"
    by (simp_all add: processedBytesPerFrame_eq)
  from serializer_bitmap[OF a] obtain pd where pd: "serializer [0xA5] = Inr pd"
    "length pd = frameWidth * frameHeight * 4"
    "\<forall>y x c. y < frameHeight \<longrightarrow> x < frameWidth \<longrightarrow> c < 4 \<longrightarrow>
              pd ! (y * 7680 + x * 4 + c) =
                (if c < 3 \<and> payload_bit [0xA5] (3 * ((y div dotSize) * width + x div dotSize) + c)
                 then 0xff else 0)" by blast
  have b: "payload_bit [0xA5] 0" "\<not> payload_bit [0xA5] 1" "payload_bit [0xA5] 2"
    "\<not> payload_bit [0xA5] 3" "\<not> payload_bit [0xA5] 4" "payload_bit [0xA5] 5"
    "\<not> payload_bit [0xA5] 6" "payload_bit [0xA5] 7" "\<not> payload_bit [0xA5] 8"
    "\<not> payload_bit [0xA5] 9" "\<not> payload_bit [0xA5] 10" "\<not> payload_bit [0xA5] 720"
    by (simp_all add: payload_bit_def)
  have g: "y < 1080 \<Longrightarrow> x < 1920 \<Longrightarrow> c < 4 \<Longrightarrow> pd ! (y * 7680 + x * 4 + c) =
                (if c < 3 \<and> payload_bit [0xA5] (3 * ((y div 8) * 240 + x div 8) + c)
                 then 0xff else 0)" for y x c
    using pd(3) by (simp add: frameWidth_def frameHeight_def dotSize_def width_eq)
  show ?thesis
    using pd(1,2) g[of 0 0 0] g[of 0 0 1] g[of 0 0 2] g[of 0 0 3] g[of 7 7 2] g[of 0 8 2]
      g[of 0 16 1] g[of 0 24 1] g[of 8 0 0] b
    by (simp add: frameWidth_def frameHeight_def numeral_2_eq_2[symmetric])
qed

text \<open>
  Claim C4, as amended. For every bitmap of the frame geometry the Frame Unpacker returns
  \<open>processedBytesPerFrame\<close> bytes whose bit \<open>n\<close> (most significant bit first) is the high
  bit of channel \<open>n mod 3\<close> of one pixel of macro-dot \<open>n div 3\<close>, taken in row-major order:
  the pixel at offset 3 in both directions inside the block of \<open>dotSize\<close> pixels.
\<close>

theorem digest_samples:
  assumes "length bytes = rawBytesPerFrame"
  shows "\<exists>out. digest bytes = Inr out \<and> length out = processedBytesPerFrame \<and>
           (\<forall>n < 8 * processedBytesPerFrame. payload_bit out n \<longleftrightarrow>
              bit (bytes ! rgb_coord (dotSize * (n div 3 div width) + 3)
                                     (dotSize * (n div 3 mod width) + 3) (n mod 3)) 7)"
  using digest_spec[OF assms] by (simp add: sample_bit_def sample_pos_def)

theorem digest_samples_witness:
  "\<exists>out. digest corner_bitmap = Inr out \<and> length out = processedBytesPerFrame \<and>
         payload_bit out 0 \<and> \<not> payload_bit out 1"
proof -
  have l: "length corner_bitmap = rawBytesPerFrame" by (simp add: corner_bitmap_def)
  from digest_samples[OF l] obtain out where out: "digest corner_bitmap = Inr out"
    "length out = processedBytesPerFrame"
    "\<forall>n < 8 * processedBytesPerFrame. payload_bit out n \<longleftrightarrow>
              bit (corner_bitmap ! rgb_coord (dotSize * (n div 3 div width) + 3)
                                     (dotSize * (n div 3 mod width) + 3) (n mod 3)) 7"
    by blast
  have "payload_bit out 0 \<longleftrightarrow> bit (corner_bitmap ! rgb_coord 3 3 0) 7"
    using out(3)[rule_format, of 0] by (simp add: processedBytesPerFrame_eq)
  moreover have "payload_bit out 1 \<longleftrightarrow> bit (corner_bitmap ! rgb_coord 3 3 1) 7"
    using out(3)[rule_format, of 1] by (simp add: processedBytesPerFrame_eq)
  moreover have "corner_bitmap ! rgb_coord 3 3 0 = 0xff" "corner_bitmap ! rgb_coord 3 3 1 = 0"
    by (simp_all add: corner_bitmap_def rgb_coord_def rawBytesPerFrame_eq)
  ultimately show ?thesis using out(1,2) by simp
qed

text \<open>
  The offset is 3, not \<open>dotSize / 2 = 4\<close>: a bitmap that is black but for the red channel
  of pixel (4, 4) unpacks to a payload whose bit 0 is clear, while the byte at the claimed
  position has its high bit set.
\<close>

theorem digest_centre_offset_counterexample:
  "length centre_bitmap = rawBytesPerFrame \<and>
   (\<exists>out. digest centre_bitmap = Inr out \<and> \<not> payload_bit out 0) \<and>
   bit (centre_bitmap ! claimed_sample_pos 0) 7"
proof -
  have l: "length centre_bitmap = rawBytesPerFrame" by (simp add: centre_bitmap_def)
  from digest_spec[OF l] obtain out where out: "digest centre_bitmap = Inr out"
    "\<forall>n < 8 * processedBytesPerFrame. payload_bit out n \<longleftrightarrow> sample_bit centre_bitmap n"
    by blast
  have "payload_bit out 0 \<longleftrightarrow> sample_bit centre_bitmap 0"
    using out(2) by (simp add: processedBytesPerFrame_eq)
  moreover have "\<not> sample_bit centre_bitmap 0"
    by (simp add: sample_bit_def sample_pos_def centre_bitmap_def rgb_coord_def rawBytesPerFrame_eq dotSize_def)
  moreover have "bit (centre_bitmap ! claimed_sample_pos 0) 7"
    by (simp add: claimed_sample_pos_def centre_bitmap_def rgb_coord_def rawBytesPerFrame_eq dotSize_def)
  ultimately show ?thesis using l out(1) by simp
qed

text \<open>
  Claim C5. Two bitmaps of the frame geometry whose bytes at the sampled positions agree
  in the high bit unpack to the same payload.
\<close>

theorem digest_threshold:
  assumes "length a = rawBytesPerFrame" "length b = rawBytesPerFrame"
    "\<forall>n < 8 * processedBytesPerFrame. bit (a ! sample_pos n) 7 \<longleftrightarrow> bit (b ! sample_pos n) 7"
  shows "digest a = digest b \<and> (\<exists>out. digest a = Inr out)"
proof -
  from digest_spec[OF assms(1)] obtain u where u: "digest a = Inr u"
    "length u = processedBytesPerFrame"
    "\<forall>n < 8 * processedBytesPerFrame. payload_bit u n \<longleftrightarrow> sample_bit a n" by blast
  from digest_spec[OF assms(2)] obtain v where v: "digest b = Inr v"
    "length v = processedBytesPerFrame"
    "\<forall>n < 8 * processedBytesPerFrame. payload_bit v n \<longleftrightarrow> sample_bit b n" by blast
  have "\<forall>n < 8 * length u. payload_bit u n \<longleftrightarrow> payload_bit v n"
    using u(2,3) v(3) assms(3) by (simp add: sample_bit_def)
  with u(2) v(2) have "u = v" by (intro bytes_eq_by_bits) simp_all
  with u(1) v(1) show ?thesis by simp
qed

theorem digest_threshold_witness:
  "digest bright_bitmap = digest dimmed_bitmap \<and> (\<exists>out. digest bright_bitmap = Inr out)"
proof -
  have la: "length bright_bitmap = rawBytesPerFrame" and lb: "length dimmed_bitmap = rawBytesPerFrame"
    by (simp_all add: bright_bitmap_def dimmed_bitmap_def rawBytesPerFrame_eq)
  have "bit (bright_bitmap ! k) 7 \<longleftrightarrow> bit (dimmed_bitmap ! k) 7" if "k < 6220800" for k
    using that by (simp add: bright_bitmap_def dimmed_bitmap_def nth_append)
  then have "\<forall>n < 8 * processedBytesPerFrame.
      bit (bright_bitmap ! sample_pos n) 7 \<longleftrightarrow> bit (dimmed_bitmap ! sample_pos n) 7"
    using sample_pos_bound by (simp add: processedBytesPerFrame_eq)
  from digest_threshold[OF la lb this] show ?thesis .
qed

section \<open>The frame-0 write of the Ordered Writer\<close>

text \<open>
  Claim C10. For a digested frame 0 (\<open>processedBytesPerFrame\<close> bytes), the frame-0 write
  of the decode writer is defined exactly when the length read from the header, as the
  signed 64-bit integer \<open>lengthInt\<close>, is at least 8. Below 8 the writer panics: for
  \<open>0 \<le> lengthInt < 8\<close> on the slice \<open>frameValue[8:lengthInt]\<close>, whose low bound exceeds
  its high bound (for a negative \<open>lengthInt\<close> already on \<open>Truncate\<close>). From 8 on the
  write returns a state.
\<close>

theorem writer_frame0_defined_iff:
  assumes "length fv = processedBytesPerFrame"
  shows "(sint (Uint64 (take 8 fv)) < 8 \<longrightarrow> (\<exists>e. writer_frame0 st fv = Inl e)) \<and>
         (0 \<le> sint (Uint64 (take 8 fv)) \<and> sint (Uint64 (take 8 fv)) < 8 \<longrightarrow>
            writer_frame0 st fv = Inl SliceBoundsOutOfRange) \<and>
         (8 \<le> sint (Uint64 (take 8 fv)) \<longrightarrow> (\<exists>st'. writer_frame0 st fv = Inr st'))"
  using assms
  by (auto simp: writer_frame0_def Let_def truncate_file_def processedBytesPerFrame_eq)

lemma header_0_read: "sint (Uint64 (take 8 (PutUint64 0 @ replicate 12142 0x41))) = 0"
  by (simp add: PutUint64_def Uint64_def)

lemma header_8_read: "sint (Uint64 (take 8 (PutUint64 8 @ replicate 12142 0x41))) = 8"
  by (simp add: PutUint64_def Uint64_def)

theorem writer_frame0_defined_iff_witness:
  "writer_frame0 writer_init (PutUint64 0 @ replicate 12142 0x41) = Inl SliceBoundsOutOfRange \<and>
   (\<exists>st'. writer_frame0 writer_init (PutUint64 8 @ replicate 12142 0x41) = Inr st')"
proof -
  have l: "length (PutUint64 v @ replicate 12142 (0x41 :: byte)) = processedBytesPerFrame" for v
    by (simp add: PutUint64_def processedBytesPerFrame_eq)
  show ?thesis
    using writer_frame0_defined_iff[OF l[of 0], of writer_init, unfolded header_0_read]
          writer_frame0_defined_iff[OF l[of 8], of writer_init, unfolded header_8_read]
    by simp
qed

section \<open>Claims on the round trip and on the reassembly\<close>

text \<open>
  Claim C8, on the code: the file \<open>[0x41]\<close> is chunked into one frame, and decoding that
  frame panics. The header holds the length 1, and the frame-0 write slices
  \<open>frameValue[8:lengthInt]\<close>, that is \<open>frameValue[8:1]\<close>, where the claim expects the byte
  \<open>0x41\<close> back. The arrival orders are those of one worker thread.
\<close>

theorem roundtrip_one_byte_panics:
  "length (rawFrames_of [0x41]) = 1 \<and> roundtrip [0] [0] [0x41] = Inl SliceBoundsOutOfRange"
proof -
  have o: "distinct [0::nat]" "set [0::nat] = {0..<length (rawFrames_of [0x41])}"
    "set [0::nat] \<subseteq> {0..<length (rawFrames_of [0x41])}"
    by (simp_all add: frames_A)
  have p: "pad_frame (PutUint64 1 @ [0x41]) = PutUint64 1 @ 0x41 # replicate 12141 0"
    by (simp add: pad_frame_def length_PutUint64 processedBytesPerFrame_eq)
  have "writer [\<lparr>frameID = 0, frameValue = PutUint64 1 @ 0x41 # replicate 12141 0\<rparr>] =
        Inl SliceBoundsOutOfRange"
    by (simp add: writer_def writer_run_def writer_frame0_def writer_init_def take8_header
          header_values length_PutUint64 truncate_file_def processedBytesPerFrame_eq Let_def)
  then show ?thesis
    unfolding roundtrip_frames[OF o] by (simp add: frames_A p)
qed

text \<open>
  Claim C1, on the code: encoding the file of nine bytes \<open>0x41\<close> and decoding the video,
  with one worker thread on each side, returns \<open>0x41\<close> followed by eight zero bytes, not
  the file. The frame-0 write takes \<open>frameValue[8:lengthInt]\<close>, which is 8 bytes short
  of the payload \<open>frameValue[8:lengthInt+8]\<close>; the file was truncated to 9 bytes before.
\<close>

theorem roundtrip_nine_bytes_wrong:
  "roundtrip [0] [0] (replicate 9 0x41) = Inr (0x41 # replicate 8 0)"
proof -
  have o: "distinct [0::nat]" "set [0::nat] = {0..<length (rawFrames_of (replicate 9 0x41))}"
    "set [0::nat] \<subseteq> {0..<length (rawFrames_of (replicate 9 0x41))}"
    by (simp_all add: frames_9)
  have p: "pad_frame (PutUint64 9 @ replicate 9 0x41) = PutUint64 9 @ replicate 9 0x41 @ replicate 12133 0"
    by (simp add: pad_frame_def length_PutUint64 processedBytesPerFrame_eq)
  have "writer [\<lparr>frameID = 0, frameValue = PutUint64 9 @ replicate 9 0x41 @ replicate 12133 0\<rparr>] =
        Inr (0x41 # replicate 8 0)"
    by (simp add: writer_def writer_run_def writer_frame0_def writer_init_def take8_header
          drop8_header header_values length_PutUint64 truncate_file_def write_at_def
          processedBytesPerFrame_eq Let_def)
  then show ?thesis
    unfolding roundtrip_frames[OF o] by (simp add: frames_9 p)
qed

text \<open>
  Claim C7, on the code: a file of \<open>2 * 12150 - 8 = 24292\<close> bytes is chunked into 2 frames,
  and decoding in order drops the whole payload of the final frame: \<open>lastFrameOffset\<close> is
  \<open>(24292 - 12142) % 12150 = 0\<close>, the final frame is cut to \<open>frame.value[:0]\<close>, and the
  last 12150 bytes of the file stay at the zeros of \<open>Truncate\<close>.
\<close>

theorem roundtrip_full_last_frame_lost:
  "length (rawFrames_of (replicate 24292 0x41)) = 2 \<and>
   roundtrip [0, 1] [0, 1] (replicate 24292 0x41) =
     Inr (replicate 12142 0x41 @ replicate 12150 0)"
proof -
  have o: "distinct [0, 1 :: nat]" "set [0, 1 :: nat] = {0..<length (rawFrames_of (replicate 24292 0x41))}"
    "set [0, 1 :: nat] \<subseteq> {0..<length (rawFrames_of (replicate 24292 0x41))}"
    by (auto simp: frames_24292)
  have p: "pad_frame (PutUint64 24292 @ replicate 12142 0x41) = PutUint64 24292 @ replicate 12142 0x41"
    "pad_frame (replicate 12150 0x41) = replicate 12150 0x41"
    by (simp_all add: pad_frame_def length_PutUint64 processedBytesPerFrame_eq)
  have "writer [\<lparr>frameID = 0, frameValue = PutUint64 24292 @ replicate 12142 0x41\<rparr>,
                \<lparr>frameID = 1, frameValue = replicate 12150 0x41\<rparr>] =
        Inr (replicate 12142 0x41 @ replicate 12150 0)"
    by (simp add: writer_eval)
  then show ?thesis
    unfolding roundtrip_frames[OF o] by (simp add: frames_24292 p)
qed

text \<open>
  Claim C2, on the code: for a file of 20000 bytes (two frames) the Ordered Writer gives
  the file back when frame 0 arrives first, and 12142 bytes of it followed by zeros when
  frame 1 arrives first: a frame buffered before frame 0 is written only when a later
  frame hits the cursor, and none does.
\<close>

theorem roundtrip_order_dependent:
  "roundtrip [0, 1] [0, 1] (replicate 20000 0x41) = Inr (replicate 20000 0x41) \<and>
   roundtrip [0, 1] [1, 0] (replicate 20000 0x41) =
     Inr (replicate 12142 0x41 @ replicate 7858 0)"
proof -
  have o: "distinct [0, 1 :: nat]" "set [0, 1 :: nat] = {0..<length (rawFrames_of (replicate 20000 0x41))}"
    "set [0, 1 :: nat] \<subseteq> {0..<length (rawFrames_of (replicate 20000 0x41))}"
    "set [1, 0 :: nat] \<subseteq> {0..<length (rawFrames_of (replicate 20000 0x41))}"
    by (auto simp: frames_20000)
  have p: "pad_frame (PutUint64 20000 @ replicate 12142 0x41) = PutUint64 20000 @ replicate 12142 0x41"
    "pad_frame (replicate 7858 0x41) = replicate 7858 0x41 @ replicate 4292 0"
    by (simp_all add: pad_frame_def length_PutUint64 processedBytesPerFrame_eq)
  have a: "writer [\<lparr>frameID = 0, frameValue = PutUint64 20000 @ replicate 12142 0x41\<rparr>,
                \<lparr>frameID = 1, frameValue = replicate 7858 0x41 @ replicate 4292 0\<rparr>] =
        Inr (replicate 20000 0x41)"
    by (simp add: writer_eval replicate_add[symmetric])
  have b: "writer [\<lparr>frameID = 1, frameValue = replicate 7858 0x41 @ replicate 4292 0\<rparr>,
                \<lparr>frameID = 0, frameValue = PutUint64 20000 @ replicate 12142 0x41\<rparr>] =
        Inr (replicate 12142 0x41 @ replicate 7858 0)"
    by (simp add: writer_eval insert_key_empty)
  show ?thesis
    unfolding roundtrip_frames[OF o(1,2,3)] roundtrip_frames[OF o(1,2,4)]
    using a b by (simp add: frames_20000 p)
qed

text \<open>
  Claim C6, on the code: for a file of 24293 bytes (three frames) whose frame 2 reaches
  the Ordered Writer before frame 1, the file written is 36442 bytes long: the final
  frame is written from the buffer, where it is not cut to \<open>lastFrameOffset\<close>, and
  \<open>WriteAt\<close> extends the file past the length of the header.
\<close>

theorem roundtrip_length_exceeds:
  "roundtrip [0, 1, 2] [0, 2, 1] (replicate 24293 0x41) =
     Inr (replicate 24293 0x41 @ replicate 12149 0) \<and>
   length (replicate 24293 (0x41 :: byte) @ replicate 12149 0) = 36442"
proof -
  have o: "distinct [0, 1, 2 :: nat]"
    "set [0, 1, 2 :: nat] = {0..<length (rawFrames_of (replicate 24293 0x41))}"
    "set [0, 2, 1 :: nat] \<subseteq> {0..<length (rawFrames_of (replicate 24293 0x41))}"
    by (auto simp: frames_24293)
  have p: "pad_frame (PutUint64 24293 @ replicate 12142 0x41) = PutUint64 24293 @ replicate 12142 0x41"
    "pad_frame (replicate 12150 0x41) = replicate 12150 0x41"
    "pad_frame [0x41] = 0x41 # replicate 12149 0"
    by (simp_all add: pad_frame_def length_PutUint64 processedBytesPerFrame_eq)
  have a: "writer [\<lparr>frameID = 0, frameValue = PutUint64 24293 @ replicate 12142 0x41\<rparr>,
                \<lparr>frameID = 2, frameValue = 0x41 # replicate 12149 0\<rparr>,
                \<lparr>frameID = 1, frameValue = replicate 12150 0x41\<rparr>] =
        Inr (replicate 24293 0x41 @ replicate 12149 0)"
    using replicate_Suc[of 24292 "0x41 :: byte"]
    by (simp add: writer_eval insert_key_empty writer_drain.simps replicate_add[symmetric]
          replicate_app_Cons_same)
  show ?thesis
    unfolding roundtrip_frames[OF o]
    using a by (simp add: frames_24293 p)
qed

text \<open>
  Claim C9, as amended. For frames with distinct indices, in whatever order, the state
  of the Ordered Emitter after the last of them has \<open>keys\<close> sorted and without
  duplicates, \<open>keysLen\<close> its length, the indices of \<open>buffer\<close> exactly those of \<open>keys\<close>,
  and every buffered index above the cursor. The state in which the Ordered Writer ends
  has the same list and map; while frame 0 has not come the cursor is 1 and every
  buffered index is at least 1, so above the index 0 of the frame awaited; once frame 0
  is written every buffered index is above the cursor, when frame 1 did not come before
  frame 0. Every prefix of an arrival sequence is one, so this holds after each frame.
\<close>

theorem reorder_invariants:
  assumes "distinct (map frameID frames)"
  shows "(\<exists>st. emitter_loop emitter_init frames = Inr st \<and> reorder_inv st) \<and>
         (\<forall>st. writer_run frames = Inr st \<longrightarrow>
            reorder_inv_weak st \<and>
            (0 \<notin> frameID ` set frames \<longrightarrow> wantedID st = 1) \<and>
            (0 \<in> frameID ` set frames \<longrightarrow>
             1 \<notin> frameID ` set (takeWhile (\<lambda>f. frameID f \<noteq> 0) frames) \<longrightarrow>
             reorder_inv st))"
  using emitter_reachable_inv[OF assms] writer_reachable_inv[OF assms]
    writer_reachable_pending writer_reachable_strict[OF assms] by blast

theorem reorder_invariants_witness:
  "(\<exists>st. emitter_loop emitter_init gap_frames = Inr st \<and> reorder_inv st) \<and>
   (\<exists>st. writer_run gap_frames = Inr st \<and> keys st = [2] \<and> wantedID st = 1 \<and> reorder_inv st) \<and>
   (\<exists>st. writer_run pending_frames = Inr st \<and> keys st = [1] \<and> wantedID st = 1 \<and>
         reorder_inv_weak st)"
proof -
  have d: "distinct (map frameID gap_frames)" "distinct (map frameID pending_frames)"
    by (simp_all add: gap_frames_def pending_frames_def)
  have g: "0 \<in> frameID ` set gap_frames"
    "1 \<notin> frameID ` set (takeWhile (\<lambda>f. frameID f \<noteq> 0) gap_frames)"
    by (simp_all add: gap_frames_def)
  from writer_run_gap obtain st where st: "writer_run gap_frames = Inr st" "keys st = [2]"
    "wantedID st = 1" by blast
  from writer_run_pending obtain st' where st': "writer_run pending_frames = Inr st'"
    "keys st' = [1]" "wantedID st' = 1" by blast
  from reorder_invariants[OF d(1)] st g have "reorder_inv st" by blast
  moreover from reorder_invariants[OF d(2)] st' have "reorder_inv_weak st'" by blast
  ultimately show ?thesis using reorder_invariants[OF d(1)] st st' by blast
qed

text \<open>
  In the Ordered Writer a buffered index need not exceed the cursor. The cursor starts
  at 1 and frame 0 is awaited by a loop of its own: when frame 1 is the first to arrive
  it is buffered under the index the cursor has, frame 0 still to come.
\<close>

theorem writer_pending_frame0_counterexample:
  "\<exists>st. writer_run pending_frames = Inr st \<and> keys st = [1] \<and> wantedID st = 1 \<and>
        \<not> reorder_inv st"
proof -
  from writer_run_pending obtain st where st: "writer_run pending_frames = Inr st"
    "keys st = [1]" "wantedID st = 1" by blast
  then have "\<not> reorder_inv st" by (simp add: reorder_inv_def)
  with st show ?thesis by blast
qed

text \<open>
  The arrival order left out above, frame 1 before frame 0, is the one in which the
  second loop never drains the buffer (\<open>writer_run_overtaking\<close>): frame 1 stays buffered
  under the cursor after frame 0 is written, and the file misses its bytes.
\<close>

end
